theory Spec2Isabelle
  imports Complex_Main
begin

section \<open>Data model\<close>

text \<open>
  A \<open>Date\<close> is represented by the value of its \<open>getTime()\<close>: integer milliseconds.
  Wherever the source reads the clock (\<open>new Date()\<close>, \<open>Date.now()\<close>) the model takes
  the value read as an argument.
\<close>

type_synonym Date = int

text \<open>
  Modelled from the spec: the enumeration \<open>TransactionStatus\<close> (its declaration, in the
  types module, is not among the sources): the six statuses of the state machine. The
  interfaces \<open>Transaction\<close> and \<open>Recipient\<close> are declared in the same module; the
  records below have the properties that the operations read and write.
\<close>

datatype TransactionStatus =
  SUBMITTED
  | CONVERTING
  | FLAGGED_AWAITING_CLEARANCE
  | CLEARANCE_GRANTED
  | IN_TRANSIT
  | FUNDS_ARRIVED

datatype AuthMethod = Code | Fee

datatype error = TypeError

text \<open>
  A JavaScript string is a sequence of UTF-16 code units. The account number is the one
  string that the operations take apart (\<open>slice(-4)\<close>), so it is the list of its code
  units; the other strings are only copied, compared and concatenated. \<open>units\<close> gives
  the code units of a string of ASCII characters.
\<close>

type_synonym codeUnits = "nat list"

definition units :: "string \<Rightarrow> codeUnits" where
  "units s = map of_char s"

record DeliveryOptions =
  bankDeposit :: bool
  cardDeposit :: bool
  cashPickup :: bool

record RealDetails =
  realAccountNumber :: codeUnits
  swiftBic :: string

text \<open>The fields of a recipient, as \<open>addRecipient\<close> fills them.\<close>

record Recipient =
  recipientId :: string
  fullName :: string
  nickname :: "string option"
  phone :: "string option"
  bankName :: string
  accountNumber :: codeUnits
  country :: string
  deliveryOptions :: DeliveryOptions
  realDetails :: RealDetails
  streetAddress :: "string option"
  city :: "string option"
  stateProvince :: "string option"
  postalCode :: "string option"

text \<open>The form data handed to \<open>onUpdateRecipient\<close> (the fields it reads).\<close>

record RecipientData =
  dataFullName :: string
  dataNickname :: "string option"
  dataPhone :: "string option"
  dataBankName :: string
  dataAccountNumber :: codeUnits
  dataCountry :: string
  dataSwiftBic :: string
  dataStreetAddress :: "string option"
  dataCity :: "string option"
  dataStateProvince :: "string option"
  dataPostalCode :: "string option"

text \<open>
  \<open>transactionDetails\<close>: a transaction without \<open>id\<close>, \<open>status\<close>, \<open>type\<close>,
  \<open>estimatedArrival\<close> and \<open>statusTimestamps\<close>. The optional flags are \<open>None\<close> when
  the property is absent. \<open>otherDetails\<close> stands for the remaining properties of the
  interface (purpose, description, splitGroupId, ...), which no operation below reads.
\<close>

record 'a TransactionDetails =
  accountId :: string
  recipient :: Recipient
  sendAmount :: rat
  receiveAmount :: rat
  fee :: rat
  exchangeRate :: rat
  requiresAuth :: "bool option"
  clearanceFeePaid :: "bool option"
  otherDetails :: 'a

record 'a Transaction = "'a TransactionDetails" +
  txId :: string
  status :: TransactionStatus
  txType :: string
  estimatedArrival :: Date
  statusTimestamps :: "TransactionStatus \<rightharpoonup> Date"

text \<open>The settings and the profile that the operations read.\<close>

record Settings =
  pushTransactions :: bool
  emailTransactions :: bool
  smsTransactions :: bool
  userName :: string
  userEmail :: string
  userPhone :: "string option"

subsection \<open>Side effects\<close>

datatype NotificationType = TRANSACTION | ACCOUNT

text \<open>
  The message of a notification, one constructor per template literal of the source:
  \<^item> \<open>TransferSubmittedMsg a n\<close>: "Your transfer of (a as USD) to n has been submitted."
  \<^item> \<open>FundsArrivedMsg n\<close>: "Your transfer to n has arrived."
  \<^item> \<open>RecipientUpdatedMsg n\<close>: "Details for n have been updated."
\<close>

datatype message =
  TransferSubmittedMsg rat string
  | FundsArrivedMsg string
  | RecipientUpdatedMsg string

text \<open>
  The subject and body that the notification service generates are kept symbolic:
  the generator that was called, with its arguments.
\<close>

datatype 'a generated =
  TransactionReceiptEmail "'a Transaction" string
  | FundsArrivedEmail "'a Transaction" string
  | TransactionReceiptSms "'a Transaction"

datatype 'a effect =
  AddNotification NotificationType string message
  | SendTransactionalEmail string "'a generated"
  | SendSmsNotification string "'a generated"

section \<open>Operations on one transaction\<close>

text \<open>
  The numbers of the source are IEEE 754 doubles, and each arithmetic operation gives
  the exact result rounded to the nearest double, a tie going to the even significand.
  A double is a rational here, and \<open>roundDouble\<close> is that rounding: \<open>exponent x\<close> is
  the \<open>e\<close> with \<open>2 powi e \<le> x < 2 powi (e + 1)\<close> for a positive \<open>x\<close> (\<open>bits n\<close> that of an
  integer \<open>n \<ge> 1\<close>), and the doubles between these two powers are the multiples of
  \<open>2 powi (e - 52)\<close>. The exponent is not bounded: the value of a \<open>Date\<close> is at most
  8.64e15 in magnitude, so the numbers computed from dates below (a difference, its
  quotient by 1000, a sum with 4) are zero or between 0.001 and 1.8e16 in magnitude,
  far from overflow and from the subnormal numbers.
\<close>

function bits :: "int \<Rightarrow> int" where
  "bits n = (if n < 2 then 0 else 1 + bits (n div 2))"
  by pat_completeness auto
termination
  by (relation "measure nat") auto

declare bits.simps [simp del]

definition exponent :: "rat \<Rightarrow> int" where
  "exponent x = (if 1 \<le> x then bits \<lfloor>x\<rfloor> else - (1 + bits (\<lceil>1 / x\<rceil> - 1)))"

definition roundHalfEven :: "rat \<Rightarrow> int" where
  "roundHalfEven y =
     (let f = \<lfloor>y\<rfloor>; r = y - of_int f
      in if r < 1 / 2 then f else if 1 / 2 < r then f + 1 else if even f then f else f + 1)"

definition roundDouble :: "rat \<Rightarrow> rat" where
  "roundDouble x =
     (if x = 0 then 0
      else let u = 2 powi (exponent \<bar>x\<bar> - 52)
           in sgn x * of_int (roundHalfEven (\<bar>x\<bar> / u)) * u)"

text \<open>
  The number of seconds between two dates: \<open>(a.getTime() - b.getTime()) / 1000\<close>, a
  subtraction and a division of doubles. The two times are integers that a double
  holds exactly.
\<close>

definition seconds :: "Date \<Rightarrow> Date \<Rightarrow> rat" where
  "seconds a b = roundDouble (roundDouble (of_int (a - b)) / 1000)"

text \<open>\<open>{ ...tx, status: nextStatus, statusTimestamps: { ...tx.statusTimestamps, [nextStatus]: nextTimestamp } }\<close>\<close>

definition advance :: "'a Transaction \<Rightarrow> TransactionStatus \<Rightarrow> Date \<Rightarrow> 'a Transaction" where
  "advance tx nextStatus nextTimestamp =
     tx\<lparr>status := nextStatus,
        statusTimestamps := (statusTimestamps tx)(nextStatus \<mapsto> nextTimestamp)\<rparr>"

text \<open>The calls made in the branch that sets \<open>FUNDS_ARRIVED\<close>, in order.\<close>

definition arrivalEffects :: "Settings \<Rightarrow> 'a Transaction \<Rightarrow> 'a effect list" where
  "arrivalEffects cfg tx =
     (if pushTransactions cfg
      then [AddNotification TRANSACTION ''Funds Arrived'' (FundsArrivedMsg (fullName (recipient tx)))]
      else []) @
     (if emailTransactions cfg
      then [SendTransactionalEmail (userEmail cfg) (FundsArrivedEmail tx (userName cfg))]
      else [])"

text \<open>
  The callback that the status sweep maps over the transactions. \<open>now\<close> is the clock
  value the callback reads. Reading \<open>getTime()\<close> of a missing timestamp throws.
  The source sets \<open>nextStatus\<close> in a chain of tests and builds the new record at the
  end, under \<open>if (nextStatus && nextTimestamp)\<close>; a status value and a \<open>Date\<close> being
  truthy, that test holds in exactly the branches that set \<open>nextStatus\<close>, so here
  each of these branches returns the new record. \<open>tx.requiresAuth\<close> is truthy when
  the property is present and true. The test of the \<open>CLEARANCE_GRANTED\<close> branch adds 4
  to a number of seconds, one more operation on doubles.
\<close>

definition sweepTx ::
  "Settings \<Rightarrow> Date \<Rightarrow> 'a Transaction \<Rightarrow> error + 'a Transaction \<times> 'a effect list" where
  "sweepTx cfg now tx =
     (if status tx = FUNDS_ARRIVED then Inr (tx, [])
      else case statusTimestamps tx SUBMITTED of
        None \<Rightarrow> Inl TypeError
      | Some submittedTime \<Rightarrow>
          (let elapsedSeconds = seconds now submittedTime in
           if status tx = SUBMITTED \<and> elapsedSeconds > 4 then
             Inr (advance tx (if requiresAuth tx = Some True
                              then FLAGGED_AWAITING_CLEARANCE else CONVERTING) now, [])
           else if status tx = CONVERTING \<and> elapsedSeconds > 8 then
             Inr (advance tx IN_TRANSIT now, [])
           else if status tx = IN_TRANSIT \<and> elapsedSeconds > 15 then
             Inr (advance tx FUNDS_ARRIVED now, arrivalEffects cfg tx)
           else if status tx = CLEARANCE_GRANTED then
             (case statusTimestamps tx CLEARANCE_GRANTED of
                None \<Rightarrow> Inl TypeError
              | Some grantedTime \<Rightarrow>
                  if elapsedSeconds > roundDouble (seconds grantedTime submittedTime + 4)
                  then Inr (advance tx IN_TRANSIT now, [])
                  else Inr (tx, []))
           else Inr (tx, [])))"

text \<open>The callback that \<open>onAuthorizeTransaction\<close> maps over the transactions.\<close>

definition authorizeTx ::
  "string \<Rightarrow> AuthMethod \<Rightarrow> Date \<Rightarrow> 'a Transaction \<Rightarrow> 'a Transaction" where
  "authorizeTx transactionId method now tx =
     (if txId tx = transactionId \<and> status tx = FLAGGED_AWAITING_CLEARANCE
      then tx\<lparr>status := CLEARANCE_GRANTED,
              statusTimestamps := (statusTimestamps tx)(CLEARANCE_GRANTED \<mapsto> now),
              clearanceFeePaid := Some (method = Fee)\<rparr>
      else tx)"

section \<open>Operations on the ledger\<close>

text \<open>Decimal rendering of a number inside a template literal.\<close>

fun decimal :: "nat \<Rightarrow> string" where
  "decimal n =
     (if n < 10 then [''0123456789'' ! n]
      else decimal (n div 10) @ [''0123456789'' ! (n mod 10)])"

declare decimal.simps [simp del]

definition showInt :: "int \<Rightarrow> string" where
  "showInt i = (if i < 0 then CHR ''-'' # decimal (nat (- i)) else decimal (nat i))"

text \<open>
  \<open>createTransaction\<close> reads the clock three times: for the id, for the estimated
  arrival and for the \<open>SUBMITTED\<close> timestamp.
\<close>

definition newTransaction ::
  "Date \<Rightarrow> Date \<Rightarrow> Date \<Rightarrow> 'a TransactionDetails \<Rightarrow> 'a Transaction" where
  "newTransaction tId tEta tSub transactionDetails =
     \<lparr>accountId = accountId transactionDetails,
      recipient = recipient transactionDetails,
      sendAmount = sendAmount transactionDetails,
      receiveAmount = receiveAmount transactionDetails,
      fee = fee transactionDetails,
      exchangeRate = exchangeRate transactionDetails,
      requiresAuth = requiresAuth transactionDetails,
      clearanceFeePaid = clearanceFeePaid transactionDetails,
      otherDetails = otherDetails transactionDetails,
      txId = ''txn_'' @ showInt tId,
      status = SUBMITTED,
      txType = ''debit'',
      estimatedArrival = tEta + 86400000 * 3,
      statusTimestamps = [SUBMITTED \<mapsto> tSub]\<rparr>"

text \<open>
  \<open>createTransaction\<close>: the returned record, the new ledger and the calls made.
\<close>

definition createTransaction ::
  "Settings \<Rightarrow> Date \<Rightarrow> Date \<Rightarrow> Date \<Rightarrow> 'a TransactionDetails \<Rightarrow> 'a Transaction list
     \<Rightarrow> 'a Transaction \<times> 'a Transaction list \<times> 'a effect list" where
  "createTransaction cfg tId tEta tSub transactionDetails prev =
     (let newTx = newTransaction tId tEta tSub transactionDetails in
      (newTx,
       newTx # prev,
       [AddNotification TRANSACTION ''Transfer Submitted''
          (TransferSubmittedMsg (sendAmount transactionDetails)
             (fullName (recipient transactionDetails)))] @
       (if emailTransactions cfg
        then [SendTransactionalEmail (userEmail cfg) (TransactionReceiptEmail newTx (userName cfg))]
        else []) @
       (if smsTransactions cfg
        then [SendSmsNotification (case userPhone cfg of None \<Rightarrow> '''' | Some p \<Rightarrow> p)
                (TransactionReceiptSms newTx)]
        else [])))"

text \<open>
  The sweep: \<open>prevTransactions.map(...)\<close>. \<open>clock i\<close> is the clock value read by the
  callback at index \<open>i\<close>. A throw in the callback ends the update without a new list;
  the calls made before it have been made.
\<close>

fun sweepFrom ::
  "Settings \<Rightarrow> (nat \<Rightarrow> Date) \<Rightarrow> nat \<Rightarrow> 'a Transaction list
     \<Rightarrow> (error + 'a Transaction list) \<times> 'a effect list" where
  "sweepFrom cfg clock i [] = (Inr [], [])"
| "sweepFrom cfg clock i (tx # txs) =
     (case sweepTx cfg (clock i) tx of
        Inl e \<Rightarrow> (Inl e, [])
      | Inr (tx', fx) \<Rightarrow>
          (case sweepFrom cfg clock (Suc i) txs of
             (Inl e, fx') \<Rightarrow> (Inl e, fx @ fx')
           | (Inr txs', fx') \<Rightarrow> (Inr (tx' # txs'), fx @ fx')))"

definition sweep ::
  "Settings \<Rightarrow> (nat \<Rightarrow> Date) \<Rightarrow> 'a Transaction list
     \<Rightarrow> (error + 'a Transaction list) \<times> 'a effect list" where
  "sweep cfg clock prevTransactions = sweepFrom cfg clock 0 prevTransactions"

text \<open>\<open>onAuthorizeTransaction\<close>: \<open>prev.map(...)\<close>, with the clock read per element.\<close>

fun authorizeFrom ::
  "string \<Rightarrow> AuthMethod \<Rightarrow> (nat \<Rightarrow> Date) \<Rightarrow> nat \<Rightarrow> 'a Transaction list
     \<Rightarrow> 'a Transaction list" where
  "authorizeFrom transactionId method clock i [] = []"
| "authorizeFrom transactionId method clock i (tx # txs) =
     authorizeTx transactionId method (clock i) tx
       # authorizeFrom transactionId method clock (Suc i) txs"

definition onAuthorizeTransaction ::
  "string \<Rightarrow> AuthMethod \<Rightarrow> (nat \<Rightarrow> Date) \<Rightarrow> 'a Transaction list \<Rightarrow> 'a Transaction list" where
  "onAuthorizeTransaction transactionId method clock prev =
     authorizeFrom transactionId method clock 0 prev"

section \<open>Recipients\<close>

record 'a AppState =
  transactions :: "'a Transaction list"
  recipients :: "Recipient list"

text \<open>\<open>s.slice(-4)\<close>: the last four code units, or all of a shorter string.\<close>

definition sliceLast4 :: "codeUnits \<Rightarrow> codeUnits" where
  "sliceLast4 s = drop (length s - 4) s"

text \<open>
  The mask in front of the last four digits: four bullets (U+2022, one code unit each)
  and a space.
\<close>

definition bullet :: codeUnits where
  "bullet = [0x2022]"

definition maskAccount :: "codeUnits \<Rightarrow> codeUnits" where
  "maskAccount s = bullet @ bullet @ bullet @ bullet @ units '' '' @ sliceLast4 s"

text \<open>
  \<open>onUpdateRecipient\<close>: \<open>setRecipients(prev => prev.map(...))\<close> builds a new object for
  the recipient it edits and touches no other state; then it notifies.
\<close>

definition updateRecipient :: "RecipientData \<Rightarrow> Recipient \<Rightarrow> Recipient" where
  "updateRecipient d r =
     r\<lparr>fullName := dataFullName d,
       nickname := dataNickname d,
       phone := dataPhone d,
       bankName := dataBankName d,
       accountNumber := maskAccount (dataAccountNumber d),
       country := dataCountry d,
       realDetails := \<lparr>realAccountNumber = dataAccountNumber d, swiftBic = dataSwiftBic d\<rparr>,
       streetAddress := dataStreetAddress d,
       city := dataCity d,
       stateProvince := dataStateProvince d,
       postalCode := dataPostalCode d\<rparr>"

definition onUpdateRecipient ::
  "string \<Rightarrow> RecipientData \<Rightarrow> 'a AppState \<Rightarrow> 'a AppState \<times> 'a effect list" where
  "onUpdateRecipient rid d st =
     (st\<lparr>recipients := map (\<lambda>r. if recipientId r = rid then updateRecipient d r else r)
                           (recipients st)\<rparr>,
      [AddNotification ACCOUNT ''Recipient Updated'' (RecipientUpdatedMsg (dataFullName d))])"

section \<open>The life of one transaction\<close>

text \<open>
  Both the sweep and the authorization map a callback over the ledger; a submission
  puts a new record in front of the others, and a recipient update does not touch the
  ledger. So each transaction sees a sequence of calls of the two callbacks, and of
  operations (\<open>TOther\<close>: a later submission, a recipient update) that leave it as
  it is.
\<close>

datatype tevent =
  TSweep Settings Date
  | TAuthorize string AuthMethod Date
  | TOther

fun isSweep :: "tevent \<Rightarrow> bool" where
  "isSweep (TSweep cfg now) = True"
| "isSweep (TAuthorize tid m now) = False"
| "isSweep TOther = False"

fun txStep :: "tevent \<Rightarrow> 'a Transaction \<Rightarrow> error + 'a Transaction \<times> 'a effect list" where
  "txStep (TSweep cfg now) tx = sweepTx cfg now tx"
| "txStep (TAuthorize tid m now) tx = Inr (authorizeTx tid m now tx, [])"
| "txStep TOther tx = Inr (tx, [])"

text \<open>
  The record after each call, with the calls it caused; a throw ends the run.
\<close>

fun txRun ::
  "tevent list \<Rightarrow> 'a Transaction \<Rightarrow> error + ('a Transaction \<times> 'a effect list) list" where
  "txRun [] tx = Inr []"
| "txRun (ev # evs) tx =
     (case txStep ev tx of
        Inl e \<Rightarrow> Inl e
      | Inr (tx', fx) \<Rightarrow>
          (case txRun evs tx' of
             Inl e \<Rightarrow> Inl e
           | Inr rest \<Rightarrow> Inr ((tx', fx) # rest)))"

text \<open>The successive records of a run, the starting one first.\<close>

definition history ::
  "'a Transaction \<Rightarrow> ('a Transaction \<times> 'a effect list) list \<Rightarrow> 'a Transaction list" where
  "history tx0 tr = tx0 # map fst tr"

text \<open>How often a sequence of records enters \<open>FUNDS_ARRIVED\<close>.\<close>

fun arrivals :: "'a Transaction list \<Rightarrow> nat" where
  "arrivals (a # b # rest) =
     (if status a \<noteq> FUNDS_ARRIVED \<and> status b = FUNDS_ARRIVED then 1 else 0)
       + arrivals (b # rest)"
| "arrivals _ = 0"

text \<open>The calls of the arrival branch.\<close>

fun isArrival :: "'a effect \<Rightarrow> bool" where
  "isArrival (AddNotification ty title msg) = (title = ''Funds Arrived'')"
| "isArrival (SendTransactionalEmail to (FundsArrivedEmail tx name)) = True"
| "isArrival _ = False"

section \<open>Sequences of operations\<close>

text \<open>
  The operations on the application state, each with the clock values it reads and
  the settings in force when it runs.
\<close>

datatype 'a event =
  Submit Settings Date Date Date "'a TransactionDetails"
  | Sweep Settings "nat \<Rightarrow> Date"
  | Authorize string AuthMethod "nat \<Rightarrow> Date"
  | UpdateRecipient string RecipientData

fun isSweepEvent :: "'a event \<Rightarrow> bool" where
  "isSweepEvent (Sweep cfg clock) = True"
| "isSweepEvent _ = False"

text \<open>One operation: the new state, or the error thrown, and the calls made.\<close>

fun appStep :: "'a event \<Rightarrow> 'a AppState \<Rightarrow> (error + 'a AppState) \<times> 'a effect list" where
  "appStep (Submit cfg tId tEta tSub d) st =
     (case createTransaction cfg tId tEta tSub d (transactions st) of
        (newTx, next, fx) \<Rightarrow> (Inr (st\<lparr>transactions := next\<rparr>), fx))"
| "appStep (Sweep cfg clock) st =
     (case sweep cfg clock (transactions st) of
        (Inl e, fx) \<Rightarrow> (Inl e, fx)
      | (Inr next, fx) \<Rightarrow> (Inr (st\<lparr>transactions := next\<rparr>), fx))"
| "appStep (Authorize tid m clock) st =
     (Inr (st\<lparr>transactions := onAuthorizeTransaction tid m clock (transactions st)\<rparr>), [])"
| "appStep (UpdateRecipient rid d) st =
     (case onUpdateRecipient rid d st of (st', fx) \<Rightarrow> (Inr st', fx))"

text \<open>The state after each operation of a sequence; a throw ends the run.\<close>

fun appRun :: "'a event list \<Rightarrow> 'a AppState \<Rightarrow> error + 'a AppState list" where
  "appRun [] st = Inr []"
| "appRun (ev # evs) st =
     (case appStep ev st of
        (Inl e, fx) \<Rightarrow> Inl e
      | (Inr st', fx) \<Rightarrow>
          (case appRun evs st' of
             Inl e \<Rightarrow> Inl e
           | Inr rest \<Rightarrow> Inr (st' # rest)))"

text \<open>
  New records are put in front, so a record keeps its position counted from the end
  of the ledger: \<open>fromEnd 0\<close> is the oldest record. \<open>track p sts\<close> lists the values
  that the record at position \<open>p\<close> has in the states \<open>sts\<close>.
\<close>

definition fromEnd :: "nat \<Rightarrow> 'x list \<Rightarrow> 'x" where
  "fromEnd p xs = xs ! (length xs - Suc p)"

definition track :: "nat \<Rightarrow> 'a AppState list \<Rightarrow> 'a Transaction list" where
  "track p sts = map (\<lambda>st. fromEnd p (transactions st)) sts"

text \<open>
  What the record at position \<open>p\<close> of a ledger of \<open>n\<close> records sees of an operation,
  and of a sequence of operations.
\<close>

fun viewOf :: "nat \<Rightarrow> nat \<Rightarrow> 'a event \<Rightarrow> tevent" where
  "viewOf p n (Submit cfg tId tEta tSub d) = TOther"
| "viewOf p n (Sweep cfg clock) = TSweep cfg (clock (n - Suc p))"
| "viewOf p n (Authorize tid m clock) = TAuthorize tid m (clock (n - Suc p))"
| "viewOf p n (UpdateRecipient rid d) = TOther"

fun lengthAfter :: "nat \<Rightarrow> 'a event \<Rightarrow> nat" where
  "lengthAfter n (Submit cfg tId tEta tSub d) = Suc n"
| "lengthAfter n ev = n"

fun view :: "nat \<Rightarrow> nat \<Rightarrow> 'a event list \<Rightarrow> tevent list" where
  "view p n [] = []"
| "view p n (ev # evs) = viewOf p n ev # view p (lengthAfter n ev) evs"

section \<open>Example data\<close>

definition exampleRecipient :: Recipient where
  "exampleRecipient =
     \<lparr>recipientId = ''rec_1'', fullName = ''Ada'', nickname = None, phone = None,
      bankName = ''Bank'', accountNumber = maskAccount (units ''12345678''), country = ''GB'',
      deliveryOptions = \<lparr>bankDeposit = True, cardDeposit = True, cashPickup = False\<rparr>,
      realDetails = \<lparr>realAccountNumber = units ''12345678'', swiftBic = ''ABCDGB2L''\<rparr>,
      streetAddress = None, city = None, stateProvince = None, postalCode = None\<rparr>"

definition exampleDetails :: "bool option \<Rightarrow> unit TransactionDetails" where
  "exampleDetails auth =
     \<lparr>accountId = ''acc_1'', recipient = exampleRecipient, sendAmount = 100,
      receiveAmount = 100, fee = 0, exchangeRate = 1, requiresAuth = auth,
      clearanceFeePaid = None, otherDetails = ()\<rparr>"

definition settingsOn :: Settings where
  "settingsOn =
     \<lparr>pushTransactions = True, emailTransactions = True, smsTransactions = True,
      userName = ''Randy'', userEmail = ''randy@example.com'', userPhone = None\<rparr>"

definition settingsOff :: Settings where
  "settingsOff =
     \<lparr>pushTransactions = False, emailTransactions = False, smsTransactions = False,
      userName = ''Randy'', userEmail = ''randy@example.com'', userPhone = None\<rparr>"

text \<open>A transaction submitted at time 0, and the records it passes through.\<close>

definition txSubmitted :: "bool option \<Rightarrow> unit Transaction" where
  "txSubmitted auth = newTransaction 0 0 0 (exampleDetails auth)"

definition txConverting :: "unit Transaction" where
  "txConverting = advance (txSubmitted None) CONVERTING 5000"

definition txInTransit :: "unit Transaction" where
  "txInTransit = advance txConverting IN_TRANSIT 9000"

definition txArrived :: "unit Transaction" where
  "txArrived = advance txInTransit FUNDS_ARRIVED 16000"

definition txFlagged :: "unit Transaction" where
  "txFlagged = advance (txSubmitted (Some True)) FLAGGED_AWAITING_CLEARANCE 5000"

definition txGranted :: "unit Transaction" where
  "txGranted = authorizeTx ''txn_0'' Code 6000 txFlagged"

text \<open>
  A transaction that requires authorization, submitted at 1700000000000, and the
  records it passes through: flagged by a sweep 4502 ms after its submission, cleared
  5002 ms after its submission.
\<close>

definition txSubmittedLate :: "unit Transaction" where
  "txSubmittedLate =
     newTransaction 1700000000000 1700000000000 1700000000000 (exampleDetails (Some True))"

definition txFlaggedLate :: "unit Transaction" where
  "txFlaggedLate = advance txSubmittedLate FLAGGED_AWAITING_CLEARANCE 1700000004502"

definition txGrantedLate :: "unit Transaction" where
  "txGrantedLate = authorizeTx (txId txSubmittedLate) Code 1700000005002 txFlaggedLate"

text \<open>An application state with an empty ledger, and one with a single record.\<close>

definition stateEmpty :: "unit AppState" where
  "stateEmpty = \<lparr>transactions = [], recipients = [exampleRecipient]\<rparr>"

definition stateWith :: "unit Transaction \<Rightarrow> unit AppState" where
  "stateWith tx = \<lparr>transactions = [tx], recipients = [exampleRecipient]\<rparr>"

definition exampleData :: RecipientData where
  "exampleData =
     \<lparr>dataFullName = ''Grace'', dataNickname = None, dataPhone = None,
      dataBankName = ''Other Bank'', dataAccountNumber = units ''987'', dataCountry = ''US'',
      dataSwiftBic = ''WXYZUS33'', dataStreetAddress = None, dataCity = None,
      dataStateProvince = None, dataPostalCode = None\<rparr>"

section \<open>The state diagram\<close>

text \<open>The edges that the sweep callback can take.\<close>

fun sweepEdge :: "TransactionStatus \<Rightarrow> TransactionStatus \<Rightarrow> bool" where
  "sweepEdge SUBMITTED s' = (s' = FLAGGED_AWAITING_CLEARANCE \<or> s' = CONVERTING)"
| "sweepEdge CONVERTING s' = (s' = IN_TRANSIT)"
| "sweepEdge CLEARANCE_GRANTED s' = (s' = IN_TRANSIT)"
| "sweepEdge IN_TRANSIT s' = (s' = FUNDS_ARRIVED)"
| "sweepEdge _ s' = False"

text \<open>The least number of sweeps that takes a status to \<open>FUNDS_ARRIVED\<close>.\<close>

fun sweepsLeft :: "TransactionStatus \<Rightarrow> nat" where
  "sweepsLeft SUBMITTED = 3"
| "sweepsLeft CONVERTING = 2"
| "sweepsLeft FLAGGED_AWAITING_CLEARANCE = 2"
| "sweepsLeft CLEARANCE_GRANTED = 2"
| "sweepsLeft IN_TRANSIT = 1"
| "sweepsLeft FUNDS_ARRIVED = 0"

text \<open>
  The sets of timestamp keys that a record in a given status has when the keys are
  the statuses on a path of the diagram from \<open>SUBMITTED\<close> to that status.
\<close>

fun reachedSets :: "TransactionStatus \<Rightarrow> TransactionStatus set set" where
  "reachedSets SUBMITTED = {{SUBMITTED}}"
| "reachedSets CONVERTING = {{SUBMITTED, CONVERTING}}"
| "reachedSets FLAGGED_AWAITING_CLEARANCE = {{SUBMITTED, FLAGGED_AWAITING_CLEARANCE}}"
| "reachedSets CLEARANCE_GRANTED =
     {{SUBMITTED, FLAGGED_AWAITING_CLEARANCE, CLEARANCE_GRANTED}}"
| "reachedSets IN_TRANSIT =
     {{SUBMITTED, CONVERTING, IN_TRANSIT},
      {SUBMITTED, FLAGGED_AWAITING_CLEARANCE, CLEARANCE_GRANTED, IN_TRANSIT}}"
| "reachedSets FUNDS_ARRIVED =
     {{SUBMITTED, CONVERTING, IN_TRANSIT, FUNDS_ARRIVED},
      {SUBMITTED, FLAGGED_AWAITING_CLEARANCE, CLEARANCE_GRANTED, IN_TRANSIT, FUNDS_ARRIVED}}"

definition wellFormed :: "'a Transaction \<Rightarrow> bool" where
  "wellFormed tx \<longleftrightarrow> dom (statusTimestamps tx) \<in> reachedSets (status tx)"

section \<open>Facts about times and records\<close>

text \<open>The rounding is within half a unit in the last place, and exact on integers below \<open>2\<^sup>5\<^sup>3\<close>.\<close>

lemma bits_bounds:
  "0 < n \<Longrightarrow> (2::rat) powi bits n \<le> of_int n \<and> of_int (n + 1) \<le> (2::rat) powi (bits n + 1)"
proof (induction n rule: bits.induct)
  case (1 n)
  show ?case
  proof (cases "n < 2")
    case True
    with "1.prems" have "n = 1" by simp
    then show ?thesis by (simp add: bits.simps)
  next
    case False
    then have "0 < n div 2" by simp
    from "1.IH" [OF False this]
    have a: "(2::rat) powi bits (n div 2) \<le> of_int (n div 2)"
      and b: "of_int (n div 2 + 1) \<le> (2::rat) powi (bits (n div 2) + 1)"
      by simp_all
    have e: "bits n = bits (n div 2) + 1" using False by (simp add: bits.simps [of n])
    have p: "(2::rat) powi (k + 1) = 2 * 2 powi k" for k
      by (simp add: power_int_add)
    have "2 * (n div 2) \<le> n" by simp
    then have "(of_int (2 * (n div 2)) :: rat) \<le> of_int n" by (simp only: of_int_le_iff)
    with a have 1: "(2::rat) powi bits n \<le> of_int n"
      unfolding e p by simp
    have "n + 1 \<le> 2 * (n div 2 + 1)" by presburger
    then have "(of_int (n + 1) :: rat) \<le> of_int (2 * (n div 2 + 1))"
      by (simp only: of_int_le_iff)
    with b have 2: "of_int (n + 1) \<le> (2::rat) powi (bits n + 1)"
      unfolding e p by simp
    from 1 2 show ?thesis by simp
  qed
qed

lemma exponent_bounds:
  assumes "0 < x"
  shows "2 powi exponent x \<le> x" and "x < 2 powi (exponent x + 1)"
proof -
  have "2 powi exponent x \<le> x \<and> x < 2 powi (exponent x + 1)"
  proof (cases "1 \<le> x")
    case True
    define n where "n = \<lfloor>x\<rfloor>"
    have lo: "of_int n \<le> x" and up: "x < of_int (n + 1)" unfolding n_def by linarith+
    from True have "(1::rat) < of_int (n + 1)" using up by linarith
    then have n: "0 < n" by simp
    have e: "exponent x = bits n" using True by (simp add: exponent_def n_def)
    from bits_bounds [OF n] lo up show ?thesis unfolding e by linarith
  next
    case False
    define cl where "cl = \<lceil>1 / x\<rceil>"
    have x1: "1 < 1 / x" using False assms by simp
    have up: "1 / x \<le> of_int cl" and lo: "of_int (cl - 1) < 1 / x"
      unfolding cl_def by simp_all linarith
    from x1 up have "(1::rat) < of_int cl" by linarith
    then have c: "0 < cl - 1" by simp
    have e: "exponent x = - (bits (cl - 1) + 1)"
      using False by (simp add: exponent_def cl_def)
    from bits_bounds [OF c]
    have a: "(2::rat) powi bits (cl - 1) \<le> of_int (cl - 1)"
      and b: "(of_int cl :: rat) \<le> 2 powi (bits (cl - 1) + 1)"
      by simp_all
    from a lo have "(2::rat) powi bits (cl - 1) < 1 / x" by linarith
    then have 2: "x < 1 / 2 powi bits (cl - 1)"
      using assms by (simp add: field_simps)
    from b up have "1 / x \<le> (2::rat) powi (bits (cl - 1) + 1)" by linarith
    then have 1: "1 / 2 powi (bits (cl - 1) + 1) \<le> x"
      using assms by (simp add: field_simps)
    have p1: "(2::rat) powi exponent x = 1 / 2 powi (bits (cl - 1) + 1)"
      unfolding e by (simp only: power_int_minus inverse_eq_divide)
    have "exponent x + 1 = - bits (cl - 1)" using e by simp
    then have p2: "(2::rat) powi (exponent x + 1) = 1 / 2 powi bits (cl - 1)"
      by (simp only: power_int_minus inverse_eq_divide)
    from 1 2 p1 p2 show ?thesis by simp
  qed
  then show "2 powi exponent x \<le> x" and "x < 2 powi (exponent x + 1)" by simp_all
qed

lemma roundHalfEven_error: "\<bar>of_int (roundHalfEven y) - y\<bar> \<le> 1 / 2"
proof -
  define f where "f = \<lfloor>y\<rfloor>"
  have "of_int f \<le> y" "y < of_int f + 1" unfolding f_def by linarith+
  then show ?thesis
    unfolding roundHalfEven_def Let_def f_def [symmetric] by (auto simp: abs_if)
qed

lemma roundHalfEven_int [simp]: "roundHalfEven (of_int k) = k"
  by (simp add: roundHalfEven_def)

lemma roundDouble_error: "\<bar>roundDouble x - x\<bar> \<le> \<bar>x\<bar> / 2 ^ 53"
proof (cases "x = 0")
  case True
  then show ?thesis by (simp add: roundDouble_def)
next
  case False
  define a where "a = \<bar>x\<bar>"
  define u :: rat where "u = 2 powi (exponent a - 52)"
  define m where "m = roundHalfEven (a / u)"
  have a: "0 < a" using False by (simp add: a_def)
  have u: "0 < u" by (simp add: u_def)
  have r: "roundDouble x = sgn x * of_int m * u"
    using False by (simp add: roundDouble_def Let_def a_def u_def m_def)
  have x: "x = sgn x * a" by (simp add: a_def sgn_if)
  have "roundDouble x - x = sgn x * (of_int m * u - a)"
    by (subst (2) x) (simp add: r algebra_simps)
  then have "\<bar>roundDouble x - x\<bar> = \<bar>of_int m * u - a\<bar>"
    using False by (simp add: abs_mult sgn_if)
  also have "of_int m * u - a = (of_int m - a / u) * u"
    using u by (simp add: field_simps)
  also have "\<bar>(of_int m - a / u) * u\<bar> = \<bar>of_int m - a / u\<bar> * u"
    using u by (simp add: abs_mult)
  also have "\<dots> \<le> 1 / 2 * u"
    using roundHalfEven_error [of "a / u"] u unfolding m_def
    by (intro mult_right_mono) simp_all
  also have "u = (2::rat) powi exponent a / 2 ^ 52"
    unfolding u_def by (simp add: power_int_diff)
  also have "1 / 2 * ((2::rat) powi exponent a / 2 ^ 52) = 2 powi exponent a / 2 ^ 53"
    by simp
  also have "\<dots> \<le> a / 2 ^ 53"
    using exponent_bounds(1) [OF a] by (simp add: divide_right_mono)
  finally show ?thesis by (simp add: a_def)
qed

lemma power_int_less_imp: "(2::rat) powi i < 2 powi j \<Longrightarrow> i < j"
  by (rule ccontr) (simp add: not_less power_int_increasing leD)

lemma roundDouble_int:
  assumes "\<bar>n\<bar> < 2 ^ 53"
  shows "roundDouble (of_int n) = of_int n"
proof (cases "n = 0")
  case True
  then show ?thesis by (simp add: roundDouble_def)
next
  case False
  define a :: rat where "a = \<bar>of_int n\<bar>"
  define k where "k = nat (52 - exponent a)"
  have a: "0 < a" using False by (simp add: a_def)
  have "(of_int \<bar>n\<bar> :: rat) < of_int (2 ^ 53)"
    using assms by (simp only: of_int_less_iff)
  then have "a < 2 ^ 53" by (simp add: a_def)
  with exponent_bounds(1) [OF a] have "(2::rat) powi exponent a < 2 powi 53"
    by simp
  then have e: "exponent a \<le> 52" using power_int_less_imp by fastforce
  then have ek: "exponent a - 52 = - int k" by (simp add: k_def)
  have u: "(2::rat) powi (exponent a - 52) = 1 / 2 ^ k"
    unfolding ek by (simp only: power_int_minus power_int_of_nat) (simp add: field_simps)
  have "a / (1 / 2 ^ k) = of_int (\<bar>n\<bar> * 2 ^ k)"
    by (simp add: a_def)
  then have "roundHalfEven (a / (1 / 2 ^ k)) = \<bar>n\<bar> * 2 ^ k"
    by (simp only: roundHalfEven_int)
  then have "roundDouble (of_int n) = sgn (of_int n) * of_int (\<bar>n\<bar> * 2 ^ k) * (1 / 2 ^ k)"
    using False by (simp add: roundDouble_def Let_def a_def [symmetric] u)
  also have "\<dots> = of_int n"
    by (simp add: sgn_if)
  finally show ?thesis .
qed

lemma roundDouble_bounds:
  "x - \<bar>x\<bar> / 2 ^ 53 \<le> roundDouble x" "roundDouble x \<le> x + \<bar>x\<bar> / 2 ^ 53"
  using roundDouble_error [of x] by linarith+

lemma roundDouble_pos:
  assumes "0 \<le> x"
  shows "x - x / 2 ^ 53 \<le> roundDouble x" "roundDouble x \<le> x + x / 2 ^ 53"
  using roundDouble_bounds [of x] assms by simp_all

lemma roundDouble_neg:
  assumes "x \<le> 0"
  shows "roundDouble x \<le> 0"
  using roundDouble_bounds(2) [of x] assms by (simp add: field_simps)

lemma roundDouble_numeral [simp]:
  "roundDouble 0 = 0" "roundDouble 1 = 1"
  using roundDouble_int [of 0] roundDouble_int [of 1] by simp_all

text \<open>The thresholds of the sweep are exact.\<close>

lemma p53: "(2::rat) ^ 53 = 9007199254740992" by simp

lemma p40: "(2::rat) ^ 40 = 1099511627776" by simp

lemma above_threshold:
  fixes D y e k :: rat
  assumes "D - D / 2 ^ 53 \<le> y" "y / 1000 - y / 1000 / 2 ^ 53 \<le> e" "1000 * k + 1 \<le> D"
    "0 \<le> k" "k < 2 ^ 40"
  shows "k < e"
  using assms unfolding p53 p40 by linarith

lemma below_threshold:
  fixes D e k :: rat
  assumes "e \<le> D / 1000 + D / 1000 / 2 ^ 53" "D + 1 \<le> 1000 * k" "k < 2 ^ 40"
  shows "e \<le> k"
  using assms unfolding p53 p40 by linarith

lemma seconds_gt:
  assumes "0 \<le> k" "k < 2 ^ 40"
  shows "seconds a b > of_int k \<longleftrightarrow> a - b > 1000 * k"
proof -
  define d where "d = a - b"
  define y where "y = roundDouble (of_int d)"
  define e where "e = roundDouble (y / 1000)"
  have s: "seconds a b = e" by (simp add: seconds_def e_def y_def d_def)
  have k0: "(0::rat) \<le> of_int k" using assms(1) by simp
  have "(of_int k :: rat) < of_int (2 ^ 40)"
    using assms(2) by (simp only: of_int_less_iff)
  then have k1: "(of_int k :: rat) < 2 ^ 40" by simp
  have "e > of_int k \<longleftrightarrow> d > 1000 * k"
  proof (cases "d > 1000 * k")
    case True
    then have "1000 * k + 1 \<le> d" by linarith
    then have "(of_int (1000 * k + 1) :: rat) \<le> of_int d"
      by (simp only: of_int_le_iff)
    then have d: "1000 * of_int k + 1 \<le> (of_int d :: rat)" by simp
    then have "(0::rat) \<le> of_int d" using k0 by linarith
    from roundDouble_pos(1) [OF this]
    have y: "of_int d - of_int d / 2 ^ 53 \<le> y" unfolding y_def .
    with d k0 have "0 \<le> y" unfolding p53 by linarith
    then have "0 \<le> y / 1000" by simp
    from roundDouble_pos(1) [OF this]
    have "y / 1000 - y / 1000 / 2 ^ 53 \<le> e" unfolding e_def .
    from above_threshold [OF y this d k0 k1] True show ?thesis by simp
  next
    case False
    then have dk: "d \<le> 1000 * k" by linarith
    have "e \<le> of_int k"
    proof (cases "d \<le> 0")
      case True
      then have "(of_int d :: rat) \<le> 0" by simp
      then have "y \<le> 0" unfolding y_def by (rule roundDouble_neg)
      then have "y / 1000 \<le> 0" by simp
      then have "e \<le> 0" unfolding e_def by (rule roundDouble_neg)
      with k0 show ?thesis by linarith
    next
      case pos: False
      have "k < 1099511627776" using assms(2) by simp
      with dk pos have "\<bar>d\<bar> < 9007199254740992" by linarith
      then have "\<bar>d\<bar> < 2 ^ 53" by simp
      then have y: "y = of_int d" unfolding y_def by (rule roundDouble_int)
      show ?thesis
      proof (cases "d = 1000 * k")
        case True
        then have yk: "y / 1000 = of_int k" by (simp add: y)
        have "\<bar>k\<bar> < 2 ^ 53" using assms by simp
        from roundDouble_int [OF this] show ?thesis unfolding e_def yk by simp
      next
        case False
        with dk have "d + 1 \<le> 1000 * k" by linarith
        then have "(of_int (d + 1) :: rat) \<le> of_int (1000 * k)"
          by (simp only: of_int_le_iff)
        then have d: "(of_int d :: rat) + 1 \<le> 1000 * of_int k" by simp
        have "0 \<le> y / 1000" using pos by (simp add: y)
        from roundDouble_pos(2) [OF this]
        have "e \<le> of_int d / 1000 + of_int d / 1000 / 2 ^ 53" unfolding e_def y .
        from below_threshold [OF this d k1] show ?thesis .
      qed
    qed
    with False show ?thesis by simp
  qed
  then show ?thesis by (simp add: s d_def)
qed

lemma seconds_gt_4: "seconds a b > 4 \<longleftrightarrow> a - b > 4000"
  using seconds_gt [of 4 a b] by simp

lemma seconds_gt_8: "seconds a b > 8 \<longleftrightarrow> a - b > 8000"
  using seconds_gt [of 8 a b] by simp

lemma seconds_gt_15: "seconds a b > 15 \<longleftrightarrow> a - b > 15000"
  using seconds_gt [of 15 a b] by simp

lemma seconds_exact:
  assumes "\<bar>k\<bar> < 2 ^ 43" "a - b = 1000 * k"
  shows "seconds a b = of_int k"
proof -
  have "\<bar>k\<bar> < 8796093022208" using assms(1) by simp
  then have "\<bar>1000 * k\<bar> < 9007199254740992" "\<bar>k\<bar> < 9007199254740992" by linarith+
  then have "\<bar>1000 * k\<bar> < 2 ^ 53" "\<bar>k\<bar> < 2 ^ 53" by simp_all
  from roundDouble_int [OF this(1)] roundDouble_int [OF this(2)] show ?thesis
    by (simp add: seconds_def assms(2))
qed

text \<open>
  The test of the \<open>CLEARANCE_GRANTED\<close> branch, away from its boundary: it holds when
  more than 4000 ms have passed since the grant, and fails when fewer have.
\<close>

lemma p51: "(2::rat) ^ 51 = 2251799813685248" by simp

lemma clearance_arith:
  fixes D G e off t :: rat
  assumes "\<bar>e - D / 1000\<bar> \<le> \<bar>D / 1000\<bar> / 2 ^ 53"
    and "\<bar>off - G / 1000\<bar> \<le> \<bar>G / 1000\<bar> / 2 ^ 53"
    and "\<bar>t - (off + 4)\<bar> \<le> \<bar>off + 4\<bar> / 2 ^ 53"
    and "\<bar>D\<bar> < 2 ^ 51" "\<bar>G\<bar> < 2 ^ 51"
  shows "D - G \<ge> 4001 \<Longrightarrow> t < e" and "D - G \<le> 3999 \<Longrightarrow> e \<le> t"
proof -
  note h = assms [unfolded p53 p51]
  have d: "\<bar>D / 1000\<bar> = \<bar>D\<bar> / 1000" "\<bar>G / 1000\<bar> = \<bar>G\<bar> / 1000" by simp_all
  from h(1,4) have 1: "\<bar>e - D / 1000\<bar> \<le> 1 / 4000" unfolding d by linarith
  from h(2,5) have 2: "\<bar>off - G / 1000\<bar> \<le> 1 / 4000" unfolding d by linarith
  from 2 h(5) have "\<bar>off + 4\<bar> \<le> 2251799813685248 / 1000 + 5" by linarith
  moreover have "A \<le> B / 9007199254740992 \<Longrightarrow> B \<le> 2251799813685248 / 1000 + 5
      \<Longrightarrow> A \<le> 1 / 4000 + 1 / 1000000" for A B :: rat
    by linarith
  ultimately have 3: "\<bar>t - (off + 4)\<bar> \<le> 1 / 4000 + 1 / 1000000"
    using h(3) by blast
  from 1 2 3 show "D - G \<ge> 4001 \<Longrightarrow> t < e" by linarith
  from 1 2 3 show "D - G \<le> 3999 \<Longrightarrow> e \<le> t" by linarith
qed

lemma clearance_test:
  assumes "\<bar>now - s\<bar> < 2 ^ 51" "\<bar>g - s\<bar> < 2 ^ 51"
  shows "now - g > 4000 \<Longrightarrow> seconds now s > roundDouble (seconds g s + 4)"
    and "now - g < 4000 \<Longrightarrow> \<not> seconds now s > roundDouble (seconds g s + 4)"
proof -
  define D :: rat where "D = of_int (now - s)"
  define G :: rat where "G = of_int (g - s)"
  have "\<bar>now - s\<bar> < 9007199254740992" "\<bar>g - s\<bar> < 9007199254740992"
    using assms by simp_all
  then have "\<bar>now - s\<bar> < 2 ^ 53" "\<bar>g - s\<bar> < 2 ^ 53" by simp_all
  from roundDouble_int [OF this(1)] roundDouble_int [OF this(2)]
  have e: "seconds now s = roundDouble (D / 1000)" and f: "seconds g s = roundDouble (G / 1000)"
    by (simp_all add: seconds_def D_def G_def)
  have "(of_int \<bar>now - s\<bar> :: rat) < of_int (2 ^ 51)" "(of_int \<bar>g - s\<bar> :: rat) < of_int (2 ^ 51)"
    using assms by (simp_all only: of_int_less_iff)
  then have b: "\<bar>D\<bar> < 2 ^ 51" "\<bar>G\<bar> < 2 ^ 51" by (simp_all add: D_def G_def)
  note a = clearance_arith [OF roundDouble_error [of "D / 1000"] roundDouble_error [of "G / 1000"]
      roundDouble_error [of "roundDouble (G / 1000) + 4"] b]
  show "seconds now s > roundDouble (seconds g s + 4)" if "now - g > 4000"
  proof -
    from that have "4001 \<le> (now - s) - (g - s)" by linarith
    then have "(of_int 4001 :: rat) \<le> of_int ((now - s) - (g - s))"
      by (simp only: of_int_le_iff)
    then have "D - G \<ge> 4001" by (simp add: D_def G_def)
    from a(1) [OF this] show ?thesis by (simp add: e f)
  qed
  show "\<not> seconds now s > roundDouble (seconds g s + 4)" if "now - g < 4000"
  proof -
    from that have "(now - s) - (g - s) \<le> 3999" by linarith
    then have "(of_int ((now - s) - (g - s)) :: rat) \<le> of_int 3999"
      by (simp only: of_int_le_iff)
    then have "D - G \<le> 3999" by (simp add: D_def G_def)
    from a(2) [OF this] show ?thesis by (simp add: e f)
  qed
qed

text \<open>
  Some doubles: 0.1, the sum 0.1 + 0.2 (0.30000000000000004), and an odd integer
  above \<open>2\<^sup>5\<^sup>3\<close>.
\<close>

lemma roundDouble_examples:
  "roundDouble (1 / 10) = 3602879701896397 / 36028797018963968"
  "roundDouble (roundDouble (1 / 10) + roundDouble (2 / 10))
     = 1351079888211149 / 4503599627370496"
  "roundDouble 17280000000000001 = 17280000000000000"
  by code_simp+

text \<open>
  At the boundary the test depends on the rounding: 9002 / 1000 is the double
  9.002, and 5002 / 1000 + 4 the double 9.001999999999999, one unit in the last
  place below.
\<close>

lemma boundary_doubles:
  "seconds 1700000009002 1700000000000 = 5067675480698651 / 562949953421312"
  "seconds 1700000005002 1700000000000 = 5631751334026805 / 1125899906842624"
  "roundDouble (seconds 1700000005002 1700000000000 + 4)
     = 2533837740349325 / 281474976710656"
  by code_simp+

lemma clearance_test_boundary:
  "seconds 1700000009002 1700000000000
     > roundDouble (seconds 1700000005002 1700000000000 + 4)"
  by (simp add: boundary_doubles(1,3))

lemma example_clearance_tests:
  "seconds 11000 0 > roundDouble (seconds 6000 0 + 4)"
  "seconds 10001 0 > roundDouble (seconds 6000 0 + 4)"
  "\<not> seconds 10000 0 > roundDouble (seconds 6000 0 + 4)"
  "\<not> seconds 9000 0 > roundDouble (seconds 6000 0 + 4)"
proof -
  show "seconds 11000 0 > roundDouble (seconds 6000 0 + 4)"
    by (rule clearance_test(1)) simp_all
  show "seconds 10001 0 > roundDouble (seconds 6000 0 + 4)"
    by (rule clearance_test(1)) simp_all
  show "\<not> seconds 9000 0 > roundDouble (seconds 6000 0 + 4)"
    by (rule clearance_test(2)) simp_all
  have a: "seconds 10000 0 = 10" using seconds_exact [of 10 10000 0] by simp
  have b: "seconds 6000 0 = 6" using seconds_exact [of 6 6000 0] by simp
  have c: "roundDouble 10 = 10" using roundDouble_int [of 10] by simp
  show "\<not> seconds 10000 0 > roundDouble (seconds 6000 0 + 4)"
    by (simp add: a b c)
qed

lemma status_advance [simp]: "status (advance tx s t) = s"
  by (simp add: advance_def)

lemma timestamps_advance [simp]:
  "statusTimestamps (advance tx s t) = (statusTimestamps tx)(s \<mapsto> t)"
  by (simp add: advance_def)

lemma frame_advance [simp]:
  "txId (advance tx s t) = txId tx"
  "requiresAuth (advance tx s t) = requiresAuth tx"
  "clearanceFeePaid (advance tx s t) = clearanceFeePaid tx"
  "recipient (advance tx s t) = recipient tx"
  by (simp_all add: advance_def)

lemmas example_defs =
  txSubmitted_def txConverting_def txInTransit_def txArrived_def txFlagged_def txGranted_def
  newTransaction_def exampleDetails_def advance_def authorizeTx_def showInt_def decimal.simps
  settingsOn_def settingsOff_def

lemma advance_changes: "s' \<noteq> status tx \<Longrightarrow> advance tx s' now \<noteq> tx"
  by (metis status_advance)

lemma sweepFrom_pointwise:
  "sweepFrom cfg clock i prev = (Inr next, fx) \<Longrightarrow>
     length next = length prev \<and>
     (\<forall>j<length prev. \<exists>fj. sweepTx cfg (clock (i + j)) (prev ! j) = Inr (next ! j, fj)
         \<and> set fj \<subseteq> set fx)"
proof (induction prev arbitrary: i "next" fx)
  case Nil
  then show ?case by simp
next
  case (Cons tx txs)
  from Cons.prems obtain tx' f1 txs' f2 where
    a: "sweepTx cfg (clock i) tx = Inr (tx', f1)"
    and b: "sweepFrom cfg clock (Suc i) txs = (Inr txs', f2)"
    and c: "next = tx' # txs'" "fx = f1 @ f2"
    by (auto split: sum.splits prod.splits)
  from Cons.IH [OF b] have len: "length txs' = length txs"
    and ih: "\<And>j. j < length txs \<Longrightarrow>
       \<exists>fj. sweepTx cfg (clock (Suc i + j)) (txs ! j) = Inr (txs' ! j, fj) \<and> set fj \<subseteq> set f2"
    by auto
  show ?case
  proof (intro conjI allI impI)
    show "length next = length (tx # txs)" using c len by simp
  next
    fix j assume "j < length (tx # txs)"
    show "\<exists>fj. sweepTx cfg (clock (i + j)) ((tx # txs) ! j) = Inr (next ! j, fj)
            \<and> set fj \<subseteq> set fx"
    proof (cases j)
      case 0
      then show ?thesis using a c by auto
    next
      case (Suc k)
      with \<open>j < length (tx # txs)\<close> have "k < length txs" by simp
      from ih [OF this] Suc c show ?thesis by auto
    qed
  qed
qed

lemma authorizeFrom_length [simp]:
  "length (authorizeFrom tid m clock i prev) = length prev"
  by (induction prev arbitrary: i) simp_all

lemma authorizeFrom_nth:
  "j < length prev \<Longrightarrow>
     authorizeFrom tid m clock i prev ! j = authorizeTx tid m (clock (i + j)) (prev ! j)"
proof (induction prev arbitrary: i j)
  case Nil
  then show ?case by simp
next
  case (Cons tx txs)
  then show ?case by (cases j) simp_all
qed

lemma authorizeFrom_noop:
  "\<forall>tx\<in>set prev. \<not> (txId tx = tid \<and> status tx = FLAGGED_AWAITING_CLEARANCE) \<Longrightarrow>
     authorizeFrom tid m clock i prev = prev"
  by (induction prev arbitrary: i) (auto simp: authorizeTx_def)

lemma txRun_arrived:
  "status tx = FUNDS_ARRIVED \<Longrightarrow> txRun evs tx = Inr (map (\<lambda>ev. (tx, [])) evs)"
proof (induction evs)
  case Nil
  then show ?case by simp
next
  case (Cons ev evs)
  then have "txStep ev tx = Inr (tx, [])"
    by (cases ev) (simp_all add: sweepTx_def authorizeTx_def)
  with Cons show ?case by simp
qed

lemma wellFormed_new: "wellFormed (newTransaction tId tEta tSub d)"
  by (simp add: wellFormed_def newTransaction_def)

lemma wellFormed_dom:
  assumes "wellFormed tx"
  shows "SUBMITTED \<in> dom (statusTimestamps tx)" "status tx \<in> dom (statusTimestamps tx)"
  using assms by (cases "status tx"; auto simp: wellFormed_def)+


lemma sweepTx_edge:
  assumes "sweepTx cfg now tx = Inr (tx', fx)"
  shows "(tx' = tx \<and> fx = []) \<or>
         (tx' = advance tx (status tx') now \<and> sweepEdge (status tx) (status tx')
            \<and> (status tx = SUBMITTED \<longrightarrow>
                  (status tx' = FLAGGED_AWAITING_CLEARANCE \<longleftrightarrow> requiresAuth tx = Some True))
            \<and> fx = (if status tx = IN_TRANSIT then arrivalEffects cfg tx else []))"
  using assms
  by (auto simp: sweepTx_def Let_def split: if_splits option.splits)

lemma edge_fresh:
  assumes "D \<in> reachedSets s" "sweepEdge s s'"
  shows "s' \<notin> D \<and> insert s' D \<in> reachedSets s'"
  using assms by (cases s) (auto simp: insert_commute)

lemma sweepTx_total:
  assumes "wellFormed tx"
  shows "\<exists>r. sweepTx cfg now tx = Inr r"
proof -
  obtain s where s: "statusTimestamps tx SUBMITTED = Some s"
    using wellFormed_dom(1) [OF assms] by auto
  show ?thesis
  proof (cases "status tx = CLEARANCE_GRANTED")
    case True
    with wellFormed_dom(2) [OF assms] obtain g where
      "statusTimestamps tx CLEARANCE_GRANTED = Some g" by auto
    with True s show ?thesis by (simp add: sweepTx_def)
  next
    case False
    with s show ?thesis by (auto simp: sweepTx_def Let_def)
  qed
qed

lemma sweepTx_wellFormed:
  assumes "wellFormed tx" "sweepTx cfg now tx = Inr (tx', fx)"
  shows "wellFormed tx'
           \<and> (tx' = tx \<or> (status tx' \<notin> dom (statusTimestamps tx)
                 \<and> statusTimestamps tx' = (statusTimestamps tx)(status tx' \<mapsto> now)))"
proof -
  from sweepTx_edge [OF assms(2)]
  consider "tx' = tx" | "tx' = advance tx (status tx') now" "sweepEdge (status tx) (status tx')"
    by blast
  then show ?thesis
  proof cases
    case 1
    with assms show ?thesis by simp
  next
    case 2
    from edge_fresh [OF _ 2(2)] assms(1)
    have f: "status tx' \<notin> dom (statusTimestamps tx)"
      "insert (status tx') (dom (statusTimestamps tx)) \<in> reachedSets (status tx')"
      by (simp_all add: wellFormed_def)
    have "statusTimestamps tx' = (statusTimestamps tx)(status tx' \<mapsto> now)"
      using arg_cong [OF 2(1), of statusTimestamps] by simp
    with f show ?thesis by (simp add: wellFormed_def)
  qed
qed

lemma authorizeTx_wellFormed:
  assumes "wellFormed tx"
  shows "wellFormed (authorizeTx tid m now tx)
           \<and> (authorizeTx tid m now tx = tx
               \<or> (status (authorizeTx tid m now tx) \<notin> dom (statusTimestamps tx)
                 \<and> statusTimestamps (authorizeTx tid m now tx)
                     = (statusTimestamps tx)(status (authorizeTx tid m now tx) \<mapsto> now)))"
proof (cases "txId tx = tid \<and> status tx = FLAGGED_AWAITING_CLEARANCE")
  case True
  with assms have "dom (statusTimestamps tx) = {SUBMITTED, FLAGGED_AWAITING_CLEARANCE}"
    by (simp add: wellFormed_def)
  with True show ?thesis
    by (simp add: authorizeTx_def wellFormed_def insert_commute)
next
  case False
  with assms show ?thesis by (auto simp: authorizeTx_def)
qed


lemma txStep_total:
  assumes "wellFormed tx"
  shows "\<exists>tx' fx. txStep ev tx = Inr (tx', fx)"
  using sweepTx_total [OF assms] by (cases ev) auto

lemma txStep_wellFormed:
  assumes "wellFormed tx" "txStep ev tx = Inr (tx', fx)"
  shows "wellFormed tx'"
    and "tx' = tx \<or> (status tx' \<notin> dom (statusTimestamps tx)
           \<and> dom (statusTimestamps tx') = insert (status tx') (dom (statusTimestamps tx))
           \<and> (\<forall>s\<in>dom (statusTimestamps tx). statusTimestamps tx' s = statusTimestamps tx s))"
proof -
  have "wellFormed tx' \<and> (tx' = tx \<or> (\<exists>now. status tx' \<notin> dom (statusTimestamps tx)
                 \<and> statusTimestamps tx' = (statusTimestamps tx)(status tx' \<mapsto> now)))"
  proof (cases ev)
    case (TSweep cfg now)
    with assms sweepTx_wellFormed [of tx cfg now tx' fx] show ?thesis by auto
  next
    case (TAuthorize tid m now)
    with assms authorizeTx_wellFormed [of tx tid m now] show ?thesis by auto
  next
    case TOther
    with assms show ?thesis by auto
  qed
  then show "wellFormed tx'"
    and "tx' = tx \<or> (status tx' \<notin> dom (statusTimestamps tx)
           \<and> dom (statusTimestamps tx') = insert (status tx') (dom (statusTimestamps tx))
           \<and> (\<forall>s\<in>dom (statusTimestamps tx). statusTimestamps tx' s = statusTimestamps tx s))"
    by auto
qed

lemma txRun_total:
  "wellFormed tx \<Longrightarrow> \<exists>tr. txRun evs tx = Inr tr"
proof (induction evs arbitrary: tx)
  case Nil
  then show ?case by simp
next
  case (Cons ev evs)
  from txStep_total [OF Cons.prems] obtain tx' fx where s: "txStep ev tx = Inr (tx', fx)"
    by blast
  from txStep_wellFormed(1) [OF Cons.prems s] Cons.IH obtain tr where "txRun evs tx' = Inr tr"
    by blast
  with s show ?case by simp
qed

lemma txRun_length: "txRun evs tx = Inr tr \<Longrightarrow> length tr = length evs"
  by (induction evs arbitrary: tx tr) (auto split: sum.splits prod.splits)

lemma txRun_Cons:
  assumes "txRun (ev # evs) tx = Inr tr"
  obtains tx' fx rest where "txStep ev tx = Inr (tx', fx)" "txRun evs tx' = Inr rest"
    "tr = (tx', fx) # rest"
  using assms by (auto split: sum.splits prod.splits)

text \<open>The timestamps of a well-formed record grow by exactly the statuses visited.\<close>

lemma txRun_dom:
  assumes "wellFormed tx" "txRun evs tx = Inr tr" "k < length (history tx tr)"
  shows "dom (statusTimestamps (history tx tr ! k))
           = dom (statusTimestamps tx) \<union> status ` set (take (Suc k) (history tx tr))"
  using assms
proof (induction evs arbitrary: tx tr k)
  case Nil
  then show ?case using wellFormed_dom(2) [of tx] by (auto simp: history_def)
next
  case (Cons ev evs)
  from Cons.prems(2) obtain tx' fx rest where
    s: "txStep ev tx = Inr (tx', fx)" and r: "txRun evs tx' = Inr rest"
    and tr: "tr = (tx', fx) # rest"
    by (rule txRun_Cons)
  have h: "history tx tr = tx # history tx' rest"
    by (simp add: history_def tr)
  have c: "status tx \<in> dom (statusTimestamps tx)"
    using wellFormed_dom(2) [OF Cons.prems(1)] .
  show ?case
  proof (cases k)
    case 0
    with c show ?thesis by (auto simp: h)
  next
    case (Suc j)
    with Cons.prems(3) have j: "j < length (history tx' rest)" by (simp add: h)
    have w: "wellFormed tx'" using txStep_wellFormed(1) [OF Cons.prems(1) s] .
    have d: "dom (statusTimestamps tx') = insert (status tx') (dom (statusTimestamps tx))"
      using txStep_wellFormed(2) [OF Cons.prems(1) s] wellFormed_dom(2) [OF w] by auto
    have hd: "status tx' \<in> status ` set (take (Suc j) (history tx' rest))"
      by (simp add: history_def)
    from Cons.IH [OF w r j] d hd c show ?thesis
      by (auto simp: h Suc)
  qed
qed

text \<open>An entry of a well-formed record is never overwritten.\<close>

lemma txRun_keeps:
  assumes "wellFormed tx" "txRun evs tx = Inr tr" "k < length (history tx tr)"
    "s \<in> dom (statusTimestamps tx)"
  shows "statusTimestamps (history tx tr ! k) s = statusTimestamps tx s"
  using assms
proof (induction evs arbitrary: tx tr k)
  case Nil
  then show ?case by (simp add: history_def)
next
  case (Cons ev evs)
  from Cons.prems(2) obtain tx' fx rest where
    st: "txStep ev tx = Inr (tx', fx)" and r: "txRun evs tx' = Inr rest"
    and tr: "tr = (tx', fx) # rest"
    by (rule txRun_Cons)
  have h: "history tx tr = tx # history tx' rest"
    by (simp add: history_def tr)
  show ?case
  proof (cases k)
    case 0
    then show ?thesis by (simp add: h)
  next
    case (Suc j)
    with Cons.prems(3) have j: "j < length (history tx' rest)" by (simp add: h)
    have w: "wellFormed tx'" using txStep_wellFormed(1) [OF Cons.prems(1) st] .
    have e: "statusTimestamps tx' s = statusTimestamps tx s"
      and d: "s \<in> dom (statusTimestamps tx')"
      using txStep_wellFormed(2) [OF Cons.prems(1) st] Cons.prems(4) by auto
    from Cons.IH [OF w r j d] e show ?thesis by (simp add: h Suc)
  qed
qed


lemma txStep_frame:
  assumes "txStep ev tx = Inr (tx', fx)"
  shows "recipient tx' = recipient tx" "txId tx' = txId tx" "requiresAuth tx' = requiresAuth tx"
proof -
  have "recipient tx' = recipient tx \<and> txId tx' = txId tx \<and> requiresAuth tx' = requiresAuth tx"
  proof (cases ev)
    case (TSweep cfg now)
    with assms have "sweepTx cfg now tx = Inr (tx', fx)" by simp
    from sweepTx_edge [OF this] show ?thesis
      by (metis frame_advance(1,2,4))
  next
    case (TAuthorize tid m now)
    with assms show ?thesis by (auto simp: authorizeTx_def)
  next
    case TOther
    with assms show ?thesis by auto
  qed
  then show "recipient tx' = recipient tx" "txId tx' = txId tx"
    "requiresAuth tx' = requiresAuth tx"
    by simp_all
qed

lemma history_Nil [simp]: "history tx [] = [tx]"
  by (simp add: history_def)

lemma history_Cons [simp]: "history tx ((tx', fx) # rest) = tx # history tx' rest"
  by (simp add: history_def)

lemma txRun_nth:
  assumes "txRun evs tx = Inr tr" "k < length evs"
  shows "txStep (evs ! k) (history tx tr ! k) = Inr (tr ! k)"
    and "history tx tr ! Suc k = fst (tr ! k)"
proof -
  have "txStep (evs ! k) (history tx tr ! k) = Inr (tr ! k)
          \<and> history tx tr ! Suc k = fst (tr ! k)"
    using assms
  proof (induction evs arbitrary: tx tr k)
    case Nil
    then show ?case by simp
  next
    case (Cons ev evs)
    from Cons.prems(1) obtain tx' fx rest where
      st: "txStep ev tx = Inr (tx', fx)" and r: "txRun evs tx' = Inr rest"
      and tr: "tr = (tx', fx) # rest"
      by (rule txRun_Cons)
    have h: "history tx tr = tx # history tx' rest"
      by (simp add: history_def tr)
    show ?case
    proof (cases k)
      case 0
      with st tr show ?thesis by (simp add: history_def)
    next
      case (Suc j)
      with Cons.prems(2) have "j < length evs" by simp
      from Cons.IH [OF r this] show ?thesis
        by (simp add: h Suc tr)
    qed
  qed
  then show "txStep (evs ! k) (history tx tr ! k) = Inr (tr ! k)"
    and "history tx tr ! Suc k = fst (tr ! k)"
    by simp_all
qed

lemma history_length: "txRun evs tx = Inr tr \<Longrightarrow> length (history tx tr) = Suc (length evs)"
  by (simp add: history_def txRun_length)

lemma txRun_wellFormed:
  assumes "wellFormed tx" "txRun evs tx = Inr tr" "k < length (history tx tr)"
  shows "wellFormed (history tx tr ! k)"
  using assms(3)
proof (induction k)
  case 0
  with assms(1) show ?case by (simp add: history_def)
next
  case (Suc k)
  then have k: "k < length evs" using history_length [OF assms(2)] by simp
  then have w: "wellFormed (history tx tr ! k)" using Suc history_length [OF assms(2)] by simp
  obtain t f where tf: "tr ! k = (t, f)" by (cases "tr ! k")
  from txRun_nth [OF assms(2) k] tf
  have "txStep (evs ! k) (history tx tr ! k) = Inr (t, f)" "history tx tr ! Suc k = t"
    by simp_all
  with txStep_wellFormed(1) [OF w] show ?case by simp
qed

lemma txRun_drop:
  assumes "txRun evs tx = Inr tr" "j \<le> length evs"
  shows "txRun (drop j evs) (history tx tr ! j) = Inr (drop j tr)"
  using assms
proof (induction evs arbitrary: tx tr j)
  case Nil
  then show ?case by (simp add: history_def)
next
  case (Cons ev evs)
  from Cons.prems(1) obtain tx' fx rest where
    st: "txStep ev tx = Inr (tx', fx)" and r: "txRun evs tx' = Inr rest"
    and tr: "tr = (tx', fx) # rest"
    by (rule txRun_Cons)
  show ?case
  proof (cases j)
    case 0
    with Cons.prems(1) show ?thesis by (simp add: history_def)
  next
    case (Suc i)
    with Cons.prems(2) have "i \<le> length evs" by simp
    from Cons.IH [OF r this] show ?thesis
      by (simp add: Suc tr history_def)
  qed
qed

lemma history_drop:
  assumes "j \<le> length tr"
  shows "history (history tx tr ! j) (drop j tr) = drop j (history tx tr)"
proof (cases j)
  case 0
  then show ?thesis by (simp add: history_def)
next
  case (Suc i)
  with assms have i: "i < length tr" by simp
  then have "drop i tr = tr ! i # drop (Suc i) tr"
    by (simp add: Cons_nth_drop_Suc)
  then have "map fst (drop i tr) = fst (tr ! i) # map fst (drop (Suc i) tr)"
    by simp
  with i show ?thesis
    by (simp add: history_def Suc drop_map)
qed

text \<open>An entry present at some point of a run from a well-formed record is kept.\<close>

lemma txRun_keeps_from:
  assumes "wellFormed tx" "txRun evs tx = Inr tr" "j \<le> k" "k < length (history tx tr)"
    "s \<in> dom (statusTimestamps (history tx tr ! j))"
  shows "statusTimestamps (history tx tr ! k) s = statusTimestamps (history tx tr ! j) s"
proof -
  have len: "length tr = length evs" using txRun_length [OF assms(2)] .
  have j: "j \<le> length evs" using assms(3,4) len by (simp add: history_def)
  have w: "wellFormed (history tx tr ! j)"
    using txRun_wellFormed [OF assms(1,2)] assms(3,4) by simp
  have r: "txRun (drop j evs) (history tx tr ! j) = Inr (drop j tr)"
    using txRun_drop [OF assms(2) j] .
  have h: "history (history tx tr ! j) (drop j tr) = drop j (history tx tr)"
    using history_drop [of j tr tx] j len by simp
  have "k - j < length (history (history tx tr ! j) (drop j tr))"
    using assms(3,4) by (simp add: h)
  from txRun_keeps [OF w r this assms(5)] assms(3,4) show ?thesis
    by (simp add: h)
qed

lemma txStep_arrived:
  assumes "status tx = FUNDS_ARRIVED" "txStep ev tx = Inr (tx', fx)"
  shows "tx' = tx" "fx = []"
  using assms by (cases ev; simp add: sweepTx_def authorizeTx_def)+

lemma arrivals_bound:
  "txRun evs tx = Inr tr \<Longrightarrow>
     arrivals (history tx tr) \<le> (if status tx = FUNDS_ARRIVED then 0 else 1)"
proof (induction evs arbitrary: tx tr)
  case Nil
  then show ?case by (simp add: history_def)
next
  case (Cons ev evs)
  from Cons.prems(1) obtain tx' fx rest where
    st: "txStep ev tx = Inr (tx', fx)" and r: "txRun evs tx' = Inr rest"
    and tr: "tr = (tx', fx) # rest"
    by (rule txRun_Cons)
  have h: "history tx tr = tx # tx' # map fst rest"
    by (simp add: history_def tr)
  have ih: "arrivals (tx' # map fst rest) \<le> (if status tx' = FUNDS_ARRIVED then 0 else 1)"
    using Cons.IH [OF r] by (simp add: history_def)
  show ?case
  proof (cases "status tx = FUNDS_ARRIVED")
    case True
    with txStep_arrived(1) [OF True st] ih show ?thesis by (simp add: h)
  next
    case False
    with ih show ?thesis by (auto simp: h split: if_splits)
  qed
qed


lemma txRun_frame:
  assumes "txRun evs tx = Inr tr" "k < length (history tx tr)"
  shows "recipient (history tx tr ! k) = recipient tx"
    and "txId (history tx tr ! k) = txId tx"
    and "requiresAuth (history tx tr ! k) = requiresAuth tx"
proof -
  have "recipient (history tx tr ! k) = recipient tx \<and> txId (history tx tr ! k) = txId tx
          \<and> requiresAuth (history tx tr ! k) = requiresAuth tx"
    using assms(2)
  proof (induction k)
    case 0
    then show ?case by (simp add: history_def)
  next
    case (Suc k)
    then have k: "k < length evs" using history_length [OF assms(1)] by simp
    obtain t f where tf: "tr ! k = (t, f)" by (cases "tr ! k")
    from txRun_nth [OF assms(1) k] tf
    have "txStep (evs ! k) (history tx tr ! k) = Inr (t, f)" "history tx tr ! Suc k = t"
      by simp_all
    with txStep_frame [of "evs ! k" "history tx tr ! k" t f] Suc show ?case by simp
  qed
  then show "recipient (history tx tr ! k) = recipient tx"
    and "txId (history tx tr ! k) = txId tx"
    and "requiresAuth (history tx tr ! k) = requiresAuth tx"
    by simp_all
qed

text \<open>The sweep never takes a record with \<open>requiresAuth\<close> to \<open>CONVERTING\<close>.\<close>

lemma txStep_no_converting:
  assumes "requiresAuth tx = Some True" "CONVERTING \<notin> dom (statusTimestamps tx)"
    "txStep ev tx = Inr (tx', fx)"
  shows "CONVERTING \<notin> dom (statusTimestamps tx')"
proof (cases ev)
  case (TSweep cfg now)
  with assms(3) have "sweepTx cfg now tx = Inr (tx', fx)" by simp
  from sweepTx_edge [OF this]
  consider "tx' = tx"
    | "tx' = advance tx (status tx') now" "sweepEdge (status tx) (status tx')"
      "status tx = SUBMITTED \<longrightarrow>
         (status tx' = FLAGGED_AWAITING_CLEARANCE \<longleftrightarrow> requiresAuth tx = Some True)"
    by blast
  then show ?thesis
  proof cases
    case 1
    with assms(2) show ?thesis by simp
  next
    case 2
    have "status tx' \<noteq> CONVERTING"
    proof
      assume c: "status tx' = CONVERTING"
      with 2(2) have "status tx = SUBMITTED" by (cases "status tx") simp_all
      with 2(3) assms(1) c show False by simp
    qed
    moreover have "statusTimestamps tx' = (statusTimestamps tx)(status tx' \<mapsto> now)"
      using arg_cong [OF 2(1), of statusTimestamps] by simp
    ultimately show ?thesis using assms(2) by auto
  qed
next
  case (TAuthorize tid m now)
  with assms show ?thesis by (auto simp: authorizeTx_def split: if_splits)
next
  case TOther
  with assms show ?thesis by auto
qed

lemma txRun_no_converting:
  assumes "requiresAuth tx = Some True" "CONVERTING \<notin> dom (statusTimestamps tx)"
    "txRun evs tx = Inr tr" "k < length (history tx tr)"
  shows "CONVERTING \<notin> dom (statusTimestamps (history tx tr ! k))"
  using assms(4)
proof (induction k)
  case 0
  with assms(2) show ?case by (simp add: history_def)
next
  case (Suc k)
  then have k: "k < length evs" using history_length [OF assms(3)] by simp
  then have kh: "k < length (history tx tr)" using history_length [OF assms(3)] by simp
  obtain t f where tf: "tr ! k = (t, f)" by (cases "tr ! k")
  from txRun_nth [OF assms(3) k] tf
  have s: "txStep (evs ! k) (history tx tr ! k) = Inr (t, f)" and n: "history tx tr ! Suc k = t"
    by simp_all
  have "requiresAuth (history tx tr ! k) = Some True"
    using txRun_frame(3) [OF assms(3) kh] assms(1) by simp
  from txStep_no_converting [OF this Suc.IH [OF kh] s] n show ?case by simp
qed

text \<open>Only the authorization callback sets \<open>CLEARANCE_GRANTED\<close>.\<close>

lemma txStep_granted:
  assumes "txStep ev tx = Inr (tx', fx)" "status tx' = CLEARANCE_GRANTED"
    "status tx \<noteq> CLEARANCE_GRANTED"
  shows "\<exists>m now. ev = TAuthorize (txId tx) m now \<and> status tx = FLAGGED_AWAITING_CLEARANCE"
proof (cases ev)
  case (TSweep cfg now)
  with assms(1) have "sweepTx cfg now tx = Inr (tx', fx)" by simp
  from sweepTx_edge [OF this] assms(2,3) have "sweepEdge (status tx) CLEARANCE_GRANTED"
    by auto
  then show ?thesis by (cases "status tx") simp_all
next
  case (TAuthorize tid m now)
  with assms show ?thesis by (auto simp: authorizeTx_def split: if_splits)
next
  case TOther
  with assms show ?thesis by auto
qed

lemma txRun_granted:
  assumes "txRun evs tx = Inr tr" "k < length (history tx tr)"
    "status (history tx tr ! k) = CLEARANCE_GRANTED" "status tx \<noteq> CLEARANCE_GRANTED"
  shows "\<exists>i<k. \<exists>m now. evs ! i = TAuthorize (txId tx) m now
           \<and> status (history tx tr ! i) = FLAGGED_AWAITING_CLEARANCE
           \<and> status (history tx tr ! Suc i) = CLEARANCE_GRANTED"
  using assms(2,3)
proof (induction k)
  case 0
  with assms(4) show ?case by (simp add: history_def)
next
  case (Suc k)
  then have k: "k < length evs" using history_length [OF assms(1)] by simp
  then have kh: "k < length (history tx tr)" using history_length [OF assms(1)] by simp
  show ?case
  proof (cases "status (history tx tr ! k) = CLEARANCE_GRANTED")
    case True
    from Suc.IH [OF kh True] show ?thesis by (meson less_Suc_eq)
  next
    case False
    obtain t f where tf: "tr ! k = (t, f)" by (cases "tr ! k")
    from txRun_nth [OF assms(1) k] tf
    have s: "txStep (evs ! k) (history tx tr ! k) = Inr (t, f)"
      and n: "history tx tr ! Suc k = t"
      by simp_all
    from txStep_granted [OF s _ False] Suc.prems(2) n
    obtain m now where "evs ! k = TAuthorize (txId (history tx tr ! k)) m now"
      "status (history tx tr ! k) = FLAGGED_AWAITING_CLEARANCE"
      by auto
    with txRun_frame(2) [OF assms(1) kh] Suc.prems(2) show ?thesis by auto
  qed
qed

lemma sweepEdge_left: "sweepEdge s s' \<Longrightarrow> sweepsLeft s \<le> Suc (sweepsLeft s')"
  by (cases s) auto

lemma txStep_left:
  assumes "txStep ev tx = Inr (tx', fx)"
  shows "sweepsLeft (status tx) \<le> sweepsLeft (status tx') + (if isSweep ev then 1 else 0)"
proof (cases ev)
  case (TSweep cfg now)
  with assms have "sweepTx cfg now tx = Inr (tx', fx)" by simp
  from sweepTx_edge [OF this] sweepEdge_left [of "status tx" "status tx'"] TSweep
  show ?thesis by auto
next
  case (TAuthorize tid m now)
  with assms show ?thesis by (auto simp: authorizeTx_def split: if_splits)
next
  case TOther
  with assms show ?thesis by auto
qed

lemma txRun_left:
  assumes "txRun evs tx = Inr tr" "k < length (history tx tr)"
  shows "sweepsLeft (status tx)
           \<le> sweepsLeft (status (history tx tr ! k)) + length (filter isSweep (take k evs))"
  using assms(2)
proof (induction k)
  case 0
  then show ?case by (simp add: history_def)
next
  case (Suc k)
  then have k: "k < length evs" using history_length [OF assms(1)] by simp
  then have kh: "k < length (history tx tr)" using history_length [OF assms(1)] by simp
  obtain t f where tf: "tr ! k = (t, f)" by (cases "tr ! k")
  from txRun_nth [OF assms(1) k] tf
  have s: "txStep (evs ! k) (history tx tr ! k) = Inr (t, f)" and n: "history tx tr ! Suc k = t"
    by simp_all
  from txStep_left [OF s] n Suc.IH [OF kh] k show ?case
    by (simp add: take_Suc_conv_app_nth split: if_splits)
qed

text \<open>The calls made over a whole run are those of at most one arrival.\<close>

lemma arrivalEffects_isArrival: "\<forall>e\<in>set (arrivalEffects cfg tx). isArrival e"
  by (auto simp: arrivalEffects_def)

lemma txStep_effects:
  assumes "txStep ev tx = Inr (tx', fx)"
  shows "(status tx \<noteq> FUNDS_ARRIVED \<and> status tx' = FUNDS_ARRIVED \<and> status tx = IN_TRANSIT
            \<and> (\<exists>cfg now. ev = TSweep cfg now \<and> fx = arrivalEffects cfg tx))
         \<or> (\<not> (status tx \<noteq> FUNDS_ARRIVED \<and> status tx' = FUNDS_ARRIVED) \<and> fx = [])"
proof (cases ev)
  case (TSweep cfg now)
  with assms have "sweepTx cfg now tx = Inr (tx', fx)" by simp
  from sweepTx_edge [OF this] TSweep show ?thesis
    by (cases "status tx") auto
next
  case (TAuthorize tid m now)
  with assms show ?thesis by (auto simp: authorizeTx_def split: if_splits)
next
  case TOther
  with assms show ?thesis by auto
qed

lemma txRun_effects:
  assumes "txRun evs tx = Inr tr"
  shows "(concat (map snd tr) = [] \<and> arrivals (history tx tr) = 0)
         \<or> (\<exists>i<length evs. \<exists>cfg now. evs ! i = TSweep cfg now
              \<and> status (history tx tr ! i) = IN_TRANSIT
              \<and> status (history tx tr ! Suc i) = FUNDS_ARRIVED
              \<and> concat (map snd tr) = arrivalEffects cfg (history tx tr ! i))"
  using assms
proof (induction evs arbitrary: tx tr)
  case Nil
  then show ?case by simp
next
  case (Cons ev evs)
  from Cons.prems(1) obtain tx' fx rest where
    st: "txStep ev tx = Inr (tx', fx)" and r: "txRun evs tx' = Inr rest"
    and tr: "tr = (tx', fx) # rest"
    by (rule txRun_Cons)
  have hr: "history tx' rest = tx' # map fst rest" by (simp add: history_def)
  from txStep_effects [OF st]
  consider (arrive) cfg now where "status tx = IN_TRANSIT" "status tx' = FUNDS_ARRIVED"
      "ev = TSweep cfg now" "fx = arrivalEffects cfg tx"
    | (quiet) "\<not> (status tx \<noteq> FUNDS_ARRIVED \<and> status tx' = FUNDS_ARRIVED)" "fx = []"
    by blast
  then show ?case
  proof cases
    case arrive
    from txRun_arrived [OF arrive(2), of evs] r have "concat (map snd rest) = []"
      by (auto simp: comp_def)
    with arrive have "(ev # evs) ! 0 = TSweep cfg now
        \<and> status (history tx tr ! 0) = IN_TRANSIT
        \<and> status (history tx tr ! Suc 0) = FUNDS_ARRIVED
        \<and> concat (map snd tr) = arrivalEffects cfg (history tx tr ! 0)"
      by (simp add: tr hr)
    then show ?thesis by blast
  next
    case quiet
    from Cons.IH [OF r]
    consider "concat (map snd rest) = []" "arrivals (history tx' rest) = 0"
      | i cfg now where "i < length evs" "evs ! i = TSweep cfg now"
        "status (history tx' rest ! i) = IN_TRANSIT"
        "status (history tx' rest ! Suc i) = FUNDS_ARRIVED"
        "concat (map snd rest) = arrivalEffects cfg (history tx' rest ! i)"
      by (elim disjE conjE exE) blast+
    then show ?thesis
    proof cases
      case 1
      with quiet show ?thesis by (auto simp: tr hr)
    next
      case 2
      with quiet have "Suc i < length (ev # evs) \<and> (ev # evs) ! Suc i = TSweep cfg now
        \<and> status (history tx tr ! Suc i) = IN_TRANSIT
        \<and> status (history tx tr ! Suc (Suc i)) = FUNDS_ARRIVED
        \<and> concat (map snd tr) = arrivalEffects cfg (history tx tr ! Suc i)"
        by (simp add: tr)
      then show ?thesis by blast
    qed
  qed
qed

lemma example_statuses:
  "status (txSubmitted a) = SUBMITTED" "status txConverting = CONVERTING"
  "status txInTransit = IN_TRANSIT" "status txArrived = FUNDS_ARRIVED"
  "status txFlagged = FLAGGED_AWAITING_CLEARANCE" "status txGranted = CLEARANCE_GRANTED"
  by (simp_all add: example_defs)

text \<open>A run of the application, seen from one record.\<close>

lemma appStep_view:
  assumes "appStep ev st = (Inr st', fx)" "p < length (transactions st)"
  shows "length (transactions st') = lengthAfter (length (transactions st)) ev
         \<and> (\<exists>f. txStep (viewOf p (length (transactions st)) ev) (fromEnd p (transactions st))
                  = Inr (fromEnd p (transactions st'), f) \<and> set f \<subseteq> set fx)"
proof (cases ev)
  case (Submit cfg tId tEta tSub d)
  with assms(1) have "transactions st' = newTransaction tId tEta tSub d # transactions st"
    by (auto simp: createTransaction_def Let_def)
  with assms(2) Submit show ?thesis
    by (simp add: fromEnd_def Suc_diff_Suc)
next
  case (Sweep cfg clock)
  with assms(1) obtain "next" where s: "sweep cfg clock (transactions st) = (Inr next, fx)"
    and t: "transactions st' = next"
    by (auto split: prod.splits sum.splits)
  from sweepFrom_pointwise [of cfg clock 0 "transactions st" "next" fx] s
  have len: "length next = length (transactions st)"
    and pw: "\<And>j. j < length (transactions st) \<Longrightarrow>
       \<exists>fj. sweepTx cfg (clock j) (transactions st ! j) = Inr (next ! j, fj) \<and> set fj \<subseteq> set fx"
    by (auto simp: sweep_def)
  have "length (transactions st) - Suc p < length (transactions st)"
    using assms(2) by simp
  from pw [OF this] len t Sweep show ?thesis
    by (simp add: fromEnd_def)
next
  case (Authorize tid m clock)
  with assms show ?thesis
    by (auto simp: fromEnd_def onAuthorizeTransaction_def authorizeFrom_nth)
next
  case (UpdateRecipient rid d)
  with assms show ?thesis
    by (auto simp: onUpdateRecipient_def)
qed

lemma appRun_view:
  assumes "appRun evs st = Inr sts" "p < length (transactions st)"
  shows "\<exists>tr. txRun (view p (length (transactions st)) evs) (fromEnd p (transactions st)) = Inr tr
           \<and> map fst tr = map (\<lambda>s. fromEnd p (transactions s)) sts"
  using assms
proof (induction evs arbitrary: st sts)
  case Nil
  then show ?case by simp
next
  case (Cons ev evs)
  from Cons.prems(1) obtain st' fx rest where
    a: "appStep ev st = (Inr st', fx)" and r: "appRun evs st' = Inr rest"
    and sts: "sts = st' # rest"
    by (auto split: prod.splits sum.splits)
  from appStep_view [OF a Cons.prems(2)] obtain f where
    len: "length (transactions st') = lengthAfter (length (transactions st)) ev"
    and s: "txStep (viewOf p (length (transactions st)) ev) (fromEnd p (transactions st))
              = Inr (fromEnd p (transactions st'), f)"
    by blast
  have "p < length (transactions st')"
    using len Cons.prems(2) by (cases ev) simp_all
  from Cons.IH [OF r this] obtain tr where
    "txRun (view p (length (transactions st')) evs) (fromEnd p (transactions st')) = Inr tr"
    "map fst tr = map (\<lambda>s. fromEnd p (transactions s)) rest"
    by blast
  with s len sts show ?case by simp
qed


text \<open>The life of a record made by \<open>createTransaction\<close>, as a sequence of calls.\<close>

lemma txRun_timestamps:
  assumes "tx0 = newTransaction tId tEta tSub d"
  shows "\<exists>tr. txRun evs tx0 = Inr tr
      \<and> (\<forall>k<length (history tx0 tr).
            dom (statusTimestamps (history tx0 tr ! k))
              = status ` set (take (Suc k) (history tx0 tr)))
      \<and> (\<forall>k<length (history tx0 tr).
            status (history tx0 tr ! k) \<in> dom (statusTimestamps (history tx0 tr ! k)))
      \<and> (\<forall>j k s. j \<le> k \<and> k < length (history tx0 tr)
              \<and> s \<in> dom (statusTimestamps (history tx0 tr ! j))
            \<longrightarrow> statusTimestamps (history tx0 tr ! k) s
                  = statusTimestamps (history tx0 tr ! j) s)
      \<and> arrivals (history tx0 tr) \<le> 1"
proof -
  have w: "wellFormed tx0"
    using assms by (simp add: wellFormed_new)
  from txRun_total [OF w] obtain tr where r: "txRun evs tx0 = Inr tr"
    by blast
  have d0: "dom (statusTimestamps tx0) = {SUBMITTED}" and s0: "status tx0 = SUBMITTED"
    using assms by (simp_all add: newTransaction_def)
  have a: "dom (statusTimestamps (history tx0 tr ! k))
             = status ` set (take (Suc k) (history tx0 tr))"
    if "k < length (history tx0 tr)" for k
  proof -
    have "status tx0 \<in> status ` set (take (Suc k) (history tx0 tr))"
      by (simp add: history_def)
    with txRun_dom [OF w r that] d0 s0 show ?thesis by auto
  qed
  have b: "status (history tx0 tr ! k) \<in> dom (statusTimestamps (history tx0 tr ! k))"
    if "k < length (history tx0 tr)" for k
    using wellFormed_dom(2) [OF txRun_wellFormed [OF w r that]] .
  have c: "statusTimestamps (history tx0 tr ! k) s = statusTimestamps (history tx0 tr ! j) s"
    if "j \<le> k" "k < length (history tx0 tr)"
      "s \<in> dom (statusTimestamps (history tx0 tr ! j))" for j k s
    using txRun_keeps_from [OF w r that] .
  have e: "arrivals (history tx0 tr) \<le> 1"
    using arrivals_bound [OF r] by (simp split: if_splits)
  from r a b c e show ?thesis by blast
qed



lemma txRun_clearance:
  assumes "tx0 = newTransaction tId tEta tSub d" "requiresAuth d = Some True"
  shows "\<exists>tr. txRun evs tx0 = Inr tr
      \<and> (\<forall>k<length (history tx0 tr). status (history tx0 tr ! k) = IN_TRANSIT
            \<longrightarrow> (\<exists>j<k. status (history tx0 tr ! j) = CLEARANCE_GRANTED))
      \<and> (\<forall>k<length (history tx0 tr). status (history tx0 tr ! k) = CLEARANCE_GRANTED
            \<longrightarrow> (\<exists>i<k. \<exists>m now. evs ! i = TAuthorize (txId tx0) m now
                   \<and> status (history tx0 tr ! i) = FLAGGED_AWAITING_CLEARANCE
                   \<and> status (history tx0 tr ! Suc i) = CLEARANCE_GRANTED))
      \<and> (\<forall>k<length (history tx0 tr). status (history tx0 tr ! k) = FLAGGED_AWAITING_CLEARANCE
            \<longrightarrow> (\<forall>cfg now. sweepTx cfg now (history tx0 tr ! k) = Inr (history tx0 tr ! k, [])))"
proof -
  have w: "wellFormed tx0"
    using assms(1) by (simp add: wellFormed_new)
  from txRun_total [OF w] obtain tr where r: "txRun evs tx0 = Inr tr"
    by blast
  have d0: "dom (statusTimestamps tx0) = {SUBMITTED}" and s0: "status tx0 = SUBMITTED"
    and a0: "requiresAuth tx0 = Some True"
    using assms by (simp_all add: newTransaction_def)
  have a: "\<exists>j<k. status (history tx0 tr ! j) = CLEARANCE_GRANTED"
    if k: "k < length (history tx0 tr)" and it: "status (history tx0 tr ! k) = IN_TRANSIT" for k
  proof -
    have "wellFormed (history tx0 tr ! k)"
      using txRun_wellFormed [OF w r k] .
    moreover have "CONVERTING \<notin> dom (statusTimestamps (history tx0 tr ! k))"
      using txRun_no_converting [OF a0 _ r k] d0 by simp
    ultimately have "CLEARANCE_GRANTED \<in> dom (statusTimestamps (history tx0 tr ! k))"
      using it by (auto simp: wellFormed_def)
    with txRun_dom [OF w r k] d0
    have "CLEARANCE_GRANTED \<in> status ` set (take (Suc k) (history tx0 tr))"
      by auto
    then obtain j where j: "j < Suc k" "status (history tx0 tr ! j) = CLEARANCE_GRANTED"
      using k by (auto simp: in_set_conv_nth)
    with it have "j \<noteq> k" by auto
    with j show ?thesis by (auto simp: less_Suc_eq)
  qed
  have b: "\<exists>i<k. \<exists>m now. evs ! i = TAuthorize (txId tx0) m now
                   \<and> status (history tx0 tr ! i) = FLAGGED_AWAITING_CLEARANCE
                   \<and> status (history tx0 tr ! Suc i) = CLEARANCE_GRANTED"
    if "k < length (history tx0 tr)" "status (history tx0 tr ! k) = CLEARANCE_GRANTED" for k
    using txRun_granted [OF r that] s0 by simp
  have c: "sweepTx cfg now (history tx0 tr ! k) = Inr (history tx0 tr ! k, [])"
    if k: "k < length (history tx0 tr)"
      and f: "status (history tx0 tr ! k) = FLAGGED_AWAITING_CLEARANCE" for k cfg now
  proof -
    from wellFormed_dom(1) [OF txRun_wellFormed [OF w r k]]
    obtain s where "statusTimestamps (history tx0 tr ! k) SUBMITTED = Some s" by auto
    with f show ?thesis by (simp add: sweepTx_def)
  qed
  from r a b c show ?thesis by blast
qed



lemma length_view [simp]: "length (view p n evs) = length evs"
  by (induction evs arbitrary: n) simp_all

lemma isSweep_viewOf [simp]: "isSweep (viewOf p n ev) = isSweepEvent ev"
  by (cases ev) simp_all

lemma sweeps_view:
  "length (filter isSweep (take k (view p n evs))) = length (filter isSweepEvent (take k evs))"
proof (induction evs arbitrary: n k)
  case Nil
  then show ?case by simp
next
  case (Cons ev evs)
  then show ?case by (cases k) simp_all
qed

lemma view_nth:
  assumes "i < length evs"
  shows "(view p n evs ! i = TAuthorize tid m now
            \<longrightarrow> (\<exists>clock. evs ! i = Authorize tid m clock))
       \<and> (view p n evs ! i = TSweep cfg now \<longrightarrow> (\<exists>clock. evs ! i = Sweep cfg clock))"
  using assms
proof (induction evs arbitrary: n i)
  case Nil
  then show ?case by simp
next
  case (Cons ev evs)
  show ?case
  proof (cases i)
    case 0
    then show ?thesis by (cases ev) simp_all
  next
    case (Suc j)
    with Cons.prems have "j < length evs" by simp
    from Cons.IH [OF this] Suc show ?thesis by simp
  qed
qed

text \<open>A submitted record and the later operations, seen from that record.\<close>

lemma appRun_submit:
  assumes "appRun (Submit cfg tId tEta tSub d # evs) st0 = Inr sts"
  shows "\<exists>tr. txRun (view (length (transactions st0)) (Suc (length (transactions st0))) evs)
                (newTransaction tId tEta tSub d) = Inr tr
           \<and> history (newTransaction tId tEta tSub d) tr = track (length (transactions st0)) sts
           \<and> length sts = Suc (length evs)"
proof -
  let ?tx = "newTransaction tId tEta tSub d"
  let ?st1 = "st0\<lparr>transactions := ?tx # transactions st0\<rparr>"
  let ?p = "length (transactions st0)"
  have a: "appStep (Submit cfg tId tEta tSub d) st0
             = (Inr ?st1, snd (snd (createTransaction cfg tId tEta tSub d (transactions st0))))"
    by (simp add: createTransaction_def Let_def)
  with assms obtain rest where r: "appRun evs ?st1 = Inr rest" and sts: "sts = ?st1 # rest"
    by (auto split: sum.splits)
  have p: "?p < length (transactions ?st1)" by simp
  from appRun_view [OF r p] obtain tr where
    t: "txRun (view ?p (length (transactions ?st1)) evs) (fromEnd ?p (transactions ?st1)) = Inr tr"
    and m: "map fst tr = map (\<lambda>s. fromEnd ?p (transactions s)) rest"
    by blast
  have f: "fromEnd ?p (transactions ?st1) = ?tx"
    by (simp add: fromEnd_def)
  have "length tr = length evs" using txRun_length [OF t] by simp
  then have "length rest = length evs" using arg_cong [OF m, of length] by simp
  with t m f sts show ?thesis
    by (simp add: history_def track_def)
qed

text \<open>A ledger of well-formed records never makes an operation throw.\<close>

lemma sweepFrom_total:
  assumes "\<forall>tx\<in>set prev. wellFormed tx"
  shows "\<exists>next fx. sweepFrom cfg clock i prev = (Inr next, fx) \<and> (\<forall>tx\<in>set next. wellFormed tx)"
  using assms
proof (induction prev arbitrary: i)
  case Nil
  then show ?case by simp
next
  case (Cons tx txs)
  then have w: "wellFormed tx" by simp
  from sweepTx_total [OF w] obtain tx' f where s: "sweepTx cfg (clock i) tx = Inr (tx', f)"
    by (metis surj_pair)
  have w': "wellFormed tx'" using sweepTx_wellFormed [OF w s] by simp
  from Cons obtain "next" fx where
    "sweepFrom cfg clock (Suc i) txs = (Inr next, fx)" "\<forall>tx\<in>set next. wellFormed tx"
    by (metis list.set_intros(2))
  with s w' show ?case by simp
qed

lemma authorizeFrom_wellFormed:
  assumes "\<forall>tx\<in>set prev. wellFormed tx"
  shows "\<forall>tx\<in>set (authorizeFrom tid m clock i prev). wellFormed tx"
  using assms by (induction prev arbitrary: i) (simp_all add: authorizeTx_wellFormed)

lemma appStep_total:
  assumes "\<forall>tx\<in>set (transactions st). wellFormed tx"
  shows "\<exists>st' fx. appStep ev st = (Inr st', fx) \<and> (\<forall>tx\<in>set (transactions st'). wellFormed tx)"
proof (cases ev)
  case (Submit cfg tId tEta tSub d)
  with assms show ?thesis
    by (simp add: createTransaction_def Let_def wellFormed_new)
next
  case (Sweep cfg clock)
  from sweepFrom_total [OF assms, of cfg clock 0] Sweep show ?thesis
    by (auto simp: sweep_def)
next
  case (Authorize tid m clock)
  with authorizeFrom_wellFormed [OF assms] show ?thesis
    by (simp add: onAuthorizeTransaction_def)
next
  case (UpdateRecipient rid d)
  with assms show ?thesis by (simp add: onUpdateRecipient_def)
qed

lemma appRun_total:
  "\<forall>tx\<in>set (transactions st). wellFormed tx \<Longrightarrow> \<exists>sts. appRun evs st = Inr sts"
proof (induction evs arbitrary: st)
  case Nil
  then show ?case by simp
next
  case (Cons ev evs)
  from appStep_total [OF Cons.prems, of ev] obtain st' fx where
    a: "appStep ev st = (Inr st', fx)" and w: "\<forall>tx\<in>set (transactions st'). wellFormed tx"
    by blast
  from Cons.IH [OF w] obtain sts where "appRun evs st' = Inr sts" by blast
  with a show ?case by simp
qed


text \<open>Example runs.\<close>

lemma example_sweeps:
  "sweep settingsOn (\<lambda>i. 5000) [txSubmitted None] = (Inr [txConverting], [])"
  "sweep settingsOn (\<lambda>i. 9000) [txConverting] = (Inr [txInTransit], [])"
  "sweep settingsOn (\<lambda>i. 16000) [txInTransit]
     = (Inr [txArrived], arrivalEffects settingsOn txInTransit)"
  "sweep settingsOn (\<lambda>i. 18000) [txArrived] = (Inr [txArrived], [])"
  "sweep settingsOn (\<lambda>i. 5000) [txSubmitted (Some True)] = (Inr [txFlagged], [])"
  "sweep settingsOn (\<lambda>i. 5900) [txFlagged] = (Inr [txFlagged], [])"
  "sweep settingsOn (\<lambda>i. 11000) [txGranted] = (Inr [advance txGranted IN_TRANSIT 11000], [])"
proof -
  have 1: "sweepTx settingsOn 5000 (txSubmitted None) = Inr (txConverting, [])"
    by (simp add: sweepTx_def Let_def seconds_gt_4 seconds_gt_8 seconds_gt_15
        example_clearance_tests example_defs)
  have 2: "sweepTx settingsOn 9000 txConverting = Inr (txInTransit, [])"
    by (simp add: sweepTx_def Let_def seconds_gt_4 seconds_gt_8 seconds_gt_15
        example_clearance_tests example_defs)
  have 3: "sweepTx settingsOn 16000 txInTransit
             = Inr (txArrived, arrivalEffects settingsOn txInTransit)"
    by (simp add: sweepTx_def Let_def seconds_gt_4 seconds_gt_8 seconds_gt_15
        example_clearance_tests example_defs)
  have 4: "sweepTx settingsOn 18000 txArrived = Inr (txArrived, [])"
    by (simp add: sweepTx_def Let_def seconds_gt_4 seconds_gt_8 seconds_gt_15
        example_clearance_tests example_defs)
  have 5: "sweepTx settingsOn 5000 (txSubmitted (Some True)) = Inr (txFlagged, [])"
    by (simp add: sweepTx_def Let_def seconds_gt_4 seconds_gt_8 seconds_gt_15
        example_clearance_tests example_defs)
  have 6: "sweepTx settingsOn 5900 txFlagged = Inr (txFlagged, [])"
    by (simp add: sweepTx_def Let_def seconds_gt_4 seconds_gt_8 seconds_gt_15
        example_clearance_tests example_defs)
  have 7: "sweepTx settingsOn 11000 txGranted = Inr (advance txGranted IN_TRANSIT 11000, [])"
    by (simp add: sweepTx_def Let_def seconds_gt_4 seconds_gt_8 seconds_gt_15
        example_clearance_tests example_defs)
  show "sweep settingsOn (\<lambda>i. 5000) [txSubmitted None] = (Inr [txConverting], [])"
    "sweep settingsOn (\<lambda>i. 9000) [txConverting] = (Inr [txInTransit], [])"
    "sweep settingsOn (\<lambda>i. 16000) [txInTransit]
       = (Inr [txArrived], arrivalEffects settingsOn txInTransit)"
    "sweep settingsOn (\<lambda>i. 18000) [txArrived] = (Inr [txArrived], [])"
    "sweep settingsOn (\<lambda>i. 5000) [txSubmitted (Some True)] = (Inr [txFlagged], [])"
    "sweep settingsOn (\<lambda>i. 5900) [txFlagged] = (Inr [txFlagged], [])"
    "sweep settingsOn (\<lambda>i. 11000) [txGranted] = (Inr [advance txGranted IN_TRANSIT 11000], [])"
    by (simp_all add: sweep_def 1 2 3 4 5 6 7)
qed

lemma stateWith_update [simp]:
  "stateEmpty\<lparr>transactions := [tx]\<rparr> = stateWith tx"
  "stateWith tx\<lparr>transactions := [tx']\<rparr> = stateWith tx'"
  "transactions (stateWith tx) = [tx]" "transactions stateEmpty = []"
  by (simp_all add: stateWith_def stateEmpty_def)

lemma example_appRun:
  "appRun [Submit settingsOn 0 0 0 (exampleDetails None), Sweep settingsOn (\<lambda>i. 5000),
           Sweep settingsOn (\<lambda>i. 9000), Sweep settingsOn (\<lambda>i. 16000),
           Sweep settingsOn (\<lambda>i. 18000)] stateEmpty
     = Inr [stateWith (txSubmitted None), stateWith txConverting, stateWith txInTransit,
            stateWith txArrived, stateWith txArrived]"
  by (simp add: createTransaction_def Let_def example_sweeps txSubmitted_def [symmetric])

lemma example_appRun_cleared:
  "appRun [Submit settingsOn 0 0 0 (exampleDetails (Some True)), Sweep settingsOn (\<lambda>i. 5000),
           Sweep settingsOn (\<lambda>i. 5900), Authorize ''txn_0'' Code (\<lambda>i. 6000),
           Sweep settingsOn (\<lambda>i. 11000)] stateEmpty
     = Inr [stateWith (txSubmitted (Some True)), stateWith txFlagged, stateWith txFlagged,
            stateWith txGranted, stateWith (advance txGranted IN_TRANSIT 11000)]"
  by (simp add: createTransaction_def Let_def example_sweeps txSubmitted_def [symmetric]
      onAuthorizeTransaction_def txGranted_def [symmetric])

lemma example_track:
  "track 0 [stateWith a, stateWith b, stateWith c, stateWith d, stateWith e] = [a, b, c, d, e]"
  by (simp add: track_def fromEnd_def)

lemma example_appRun_sweeps:
  "appRun [Sweep settingsOn (\<lambda>i. 5000), Sweep settingsOn (\<lambda>i. 9000),
           Sweep settingsOn (\<lambda>i. 16000), Sweep settingsOn (\<lambda>i. 18000)]
     (stateWith (txSubmitted None))
     = Inr [stateWith txConverting, stateWith txInTransit, stateWith txArrived,
            stateWith txArrived]"
  by (simp add: example_sweeps)

lemma track_view:
  assumes "appRun evs st = Inr sts" "p < length (transactions st)"
  obtains tr where
    "txRun (view p (length (transactions st)) evs) (fromEnd p (transactions st)) = Inr tr"
    "map fst tr = track p sts"
    "history (fromEnd p (transactions st)) tr = fromEnd p (transactions st) # track p sts"
    "length sts = length evs"
proof -
  from appRun_view [OF assms] obtain tr where
    t: "txRun (view p (length (transactions st)) evs) (fromEnd p (transactions st)) = Inr tr"
    and m: "map fst tr = track p sts"
    by (auto simp: track_def)
  have "length tr = length evs" using txRun_length [OF t] by simp
  then have "length sts = length evs" using arg_cong [OF m, of length] by (simp add: track_def)
  with t m that show thesis by (simp add: history_def)
qed


section \<open>The thresholds of the sweep\<close>

text \<open>
  C1 (amended). For a transaction whose \<open>SUBMITTED\<close> timestamp is \<open>s\<close>, with
  \<open>seconds now s\<close> the elapsed seconds the sweep computes: a \<open>SUBMITTED\<close> transaction
  moves to \<open>FLAGGED_AWAITING_CLEARANCE\<close> if \<open>requiresAuth\<close> is true and to
  \<open>CONVERTING\<close> otherwise, exactly when elapsed exceeds 4; a \<open>CONVERTING\<close> one moves
  to \<open>IN_TRANSIT\<close> exactly when elapsed exceeds 8; an \<open>IN_TRANSIT\<close> one moves to
  \<open>FUNDS_ARRIVED\<close> exactly when elapsed exceeds 15. In every other case the sweep
  returns the transaction unchanged, but for one: a \<open>CLEARANCE_GRANTED\<close> transaction
  with clearance timestamp \<open>g\<close> moves to \<open>IN_TRANSIT\<close> when more than 4000
  milliseconds have passed since \<open>g\<close>, and is returned unchanged when fewer have (for
  times within \<open>2\<^sup>5\<^sup>1\<close> milliseconds of \<open>s\<close>); the sweep made exactly 4000 milliseconds
  after \<open>g\<close> is left open. Every move sets the status and changes the record, and
  the three thresholds are 4000, 8000 and 15000 milliseconds.
\<close>

theorem sweep_thresholds:
  assumes "statusTimestamps tx SUBMITTED = Some s"
  shows "(status tx = SUBMITTED \<longrightarrow>
            sweepTx cfg now tx =
              (if seconds now s > 4
               then Inr (advance tx (if requiresAuth tx = Some True
                                     then FLAGGED_AWAITING_CLEARANCE else CONVERTING) now, [])
               else Inr (tx, [])))
       \<and> (status tx = CONVERTING \<longrightarrow>
            sweepTx cfg now tx =
              (if seconds now s > 8 then Inr (advance tx IN_TRANSIT now, []) else Inr (tx, [])))
       \<and> (status tx = IN_TRANSIT \<longrightarrow>
            sweepTx cfg now tx =
              (if seconds now s > 15
               then Inr (advance tx FUNDS_ARRIVED now, arrivalEffects cfg tx)
               else Inr (tx, [])))
       \<and> (status tx = FLAGGED_AWAITING_CLEARANCE \<or> status tx = FUNDS_ARRIVED \<longrightarrow>
            sweepTx cfg now tx = Inr (tx, []))
       \<and> (\<forall>s'. s' \<noteq> status tx \<longrightarrow> advance tx s' now \<noteq> tx)
       \<and> (seconds now s > 4 \<longleftrightarrow> now - s > 4000)
       \<and> (seconds now s > 8 \<longleftrightarrow> now - s > 8000)
       \<and> (seconds now s > 15 \<longleftrightarrow> now - s > 15000)
       \<and> (status tx = CLEARANCE_GRANTED \<and> statusTimestamps tx CLEARANCE_GRANTED = Some g
            \<and> \<bar>now - s\<bar> < 2 ^ 51 \<and> \<bar>g - s\<bar> < 2 ^ 51
            \<longrightarrow> (now - g > 4000 \<longrightarrow> sweepTx cfg now tx = Inr (advance tx IN_TRANSIT now, []))
              \<and> (now - g < 4000 \<longrightarrow> sweepTx cfg now tx = Inr (tx, [])))
       \<and> (\<forall>s'. status (advance tx s' now) = s')"
proof -
  have cg: "(now - g > 4000 \<longrightarrow> sweepTx cfg now tx = Inr (advance tx IN_TRANSIT now, []))
          \<and> (now - g < 4000 \<longrightarrow> sweepTx cfg now tx = Inr (tx, []))"
    if "status tx = CLEARANCE_GRANTED" "statusTimestamps tx CLEARANCE_GRANTED = Some g"
      "\<bar>now - s\<bar> < 2 ^ 51" "\<bar>g - s\<bar> < 2 ^ 51"
    using that assms clearance_test [OF that(3,4)]
    by (simp add: sweepTx_def Let_def)
  have "(status tx = SUBMITTED \<longrightarrow>
            sweepTx cfg now tx =
              (if seconds now s > 4
               then Inr (advance tx (if requiresAuth tx = Some True
                                     then FLAGGED_AWAITING_CLEARANCE else CONVERTING) now, [])
               else Inr (tx, [])))
       \<and> (status tx = CONVERTING \<longrightarrow>
            sweepTx cfg now tx =
              (if seconds now s > 8 then Inr (advance tx IN_TRANSIT now, []) else Inr (tx, [])))
       \<and> (status tx = IN_TRANSIT \<longrightarrow>
            sweepTx cfg now tx =
              (if seconds now s > 15
               then Inr (advance tx FUNDS_ARRIVED now, arrivalEffects cfg tx)
               else Inr (tx, [])))
       \<and> (status tx = FLAGGED_AWAITING_CLEARANCE \<or> status tx = FUNDS_ARRIVED \<longrightarrow>
            sweepTx cfg now tx = Inr (tx, []))
       \<and> (\<forall>s'. s' \<noteq> status tx \<longrightarrow> advance tx s' now \<noteq> tx)
       \<and> (seconds now s > 4 \<longleftrightarrow> now - s > 4000)
       \<and> (seconds now s > 8 \<longleftrightarrow> now - s > 8000)
       \<and> (seconds now s > 15 \<longleftrightarrow> now - s > 15000)"
    using assms
    by (simp add: sweepTx_def Let_def advance_changes seconds_gt_4 seconds_gt_8 seconds_gt_15)
  with cg show ?thesis by simp
qed

theorem sweep_thresholds_witness:
  "sweepTx settingsOn 5000 (txSubmitted None) = Inr (txConverting, [])
   \<and> sweepTx settingsOn 4000 (txSubmitted None) = Inr (txSubmitted None, [])
   \<and> sweepTx settingsOn 5000 (txSubmitted (Some True)) = Inr (txFlagged, [])
   \<and> sweepTx settingsOn 9000 txConverting = Inr (txInTransit, [])
   \<and> sweepTx settingsOn 16000 txInTransit = Inr (txArrived, arrivalEffects settingsOn txInTransit)
   \<and> sweepTx settingsOn 100000 txFlagged = Inr (txFlagged, [])
   \<and> txConverting \<noteq> txSubmitted None
   \<and> sweepTx settingsOn 10001 txGranted = Inr (advance txGranted IN_TRANSIT 10001, [])
   \<and> sweepTx settingsOn 9999 txGranted = Inr (txGranted, [])"
proof -
  have s: "statusTimestamps (txSubmitted a) SUBMITTED = Some 0" for a
    by (simp add: example_defs)
  have c: "statusTimestamps txConverting SUBMITTED = Some 0"
    by (simp add: example_defs)
  have t: "statusTimestamps txInTransit SUBMITTED = Some 0"
    by (simp add: example_defs)
  have f: "statusTimestamps txFlagged SUBMITTED = Some 0"
    by (simp add: example_defs)
  have g: "statusTimestamps txGranted SUBMITTED = Some 0"
    "statusTimestamps txGranted CLEARANCE_GRANTED = Some 6000"
    "status txGranted = CLEARANCE_GRANTED"
    by (simp_all add: example_defs)
  have st: "status (txSubmitted a) = SUBMITTED" "requiresAuth (txSubmitted a) = a"
    "status txConverting = CONVERTING" "status txInTransit = IN_TRANSIT"
    "status txFlagged = FLAGGED_AWAITING_CLEARANCE" for a
    by (simp_all add: example_defs)
  have 1: "sweepTx settingsOn 5000 (txSubmitted None) = Inr (txConverting, [])
     \<and> sweepTx settingsOn 4000 (txSubmitted None) = Inr (txSubmitted None, [])
     \<and> sweepTx settingsOn 5000 (txSubmitted (Some True)) = Inr (txFlagged, [])
     \<and> sweepTx settingsOn 9000 txConverting = Inr (txInTransit, [])
     \<and> sweepTx settingsOn 16000 txInTransit = Inr (txArrived, arrivalEffects settingsOn txInTransit)
     \<and> sweepTx settingsOn 100000 txFlagged = Inr (txFlagged, [])
     \<and> txConverting \<noteq> txSubmitted None"
    using sweep_thresholds [OF s, of None settingsOn 5000]
      sweep_thresholds [OF s, of None settingsOn 4000]
      sweep_thresholds [OF s, of "Some True" settingsOn 5000]
      sweep_thresholds [OF c, of settingsOn 9000]
      sweep_thresholds [OF t, of settingsOn 16000]
      sweep_thresholds [OF f, of settingsOn 100000]
    by (simp add: st seconds_gt_4 seconds_gt_8 seconds_gt_15
        txConverting_def txInTransit_def txArrived_def txFlagged_def)
  have 2: "sweepTx settingsOn 10001 txGranted = Inr (advance txGranted IN_TRANSIT 10001, [])"
    using sweep_thresholds [OF g(1), where now = 10001 and g = 6000 and cfg = settingsOn]
    by (simp add: g)
  have 3: "sweepTx settingsOn 9999 txGranted = Inr (txGranted, [])"
    using sweep_thresholds [OF g(1), where now = 9999 and g = 6000 and cfg = settingsOn]
    by (simp add: g)
  from 1 2 3 show ?thesis by simp
qed

text \<open>
  C1 as stated fails: a transaction in \<open>CLEARANCE_GRANTED\<close>, submitted at 0 and
  cleared at 6000, is none of the three listed cases, and the sweep at 11000 moves it
  to \<open>IN_TRANSIT\<close>.
\<close>

theorem sweep_other_case_counterexample:
  "status txGranted = CLEARANCE_GRANTED
   \<and> statusTimestamps txGranted SUBMITTED = Some 0
   \<and> sweepTx settingsOn 11000 txGranted = Inr (advance txGranted IN_TRANSIT 11000, [])
   \<and> status (advance txGranted IN_TRANSIT 11000) = IN_TRANSIT
   \<and> advance txGranted IN_TRANSIT 11000 \<noteq> txGranted"
proof -
  have g: "status txGranted = CLEARANCE_GRANTED"
    by (simp add: example_defs)
  then have "advance txGranted IN_TRANSIT 11000 \<noteq> txGranted"
    by (simp add: advance_changes)
  moreover have "sweepTx settingsOn 11000 txGranted = Inr (advance txGranted IN_TRANSIT 11000, [])"
    by (simp add: sweepTx_def Let_def seconds_gt_4 seconds_gt_8 seconds_gt_15
        example_clearance_tests example_defs)
  moreover have "statusTimestamps txGranted SUBMITTED = Some 0"
    by (simp add: example_defs)
  ultimately show ?thesis using g by simp
qed


section \<open>The terminal status\<close>

text \<open>
  C2. A record in \<open>FUNDS_ARRIVED\<close> is returned unchanged by the sweep callback,
  with no call made for it, and by the authorization callback; so it stays the same
  record through every sequence of calls. In the ledger it keeps its value under a
  sweep that returns, under an authorization and under a submission, and so through
  every sequence of operations on the application state.
\<close>

theorem funds_arrived_absorbing:
  assumes "status tx = FUNDS_ARRIVED"
  shows "sweepTx cfg now tx = Inr (tx, [])
       \<and> authorizeTx tid m now tx = tx
       \<and> txRun evs tx = Inr (map (\<lambda>ev. (tx, [])) evs)
       \<and> (\<forall>i next fx. i < length prev \<and> prev ! i = tx \<and> sweep cfg clock prev = (Inr next, fx)
             \<longrightarrow> next ! i = tx)
       \<and> (\<forall>i. i < length prev \<and> prev ! i = tx
             \<longrightarrow> onAuthorizeTransaction tid m clock prev ! i = tx)
       \<and> (\<forall>i. i < length prev \<and> prev ! i = tx
             \<longrightarrow> fst (snd (createTransaction cfg tId tEta tSub d prev)) ! Suc i = tx)
       \<and> (\<forall>sts p k. appRun ops st = Inr sts \<and> p < length (transactions st)
               \<and> fromEnd p (transactions st) = tx \<and> k < length sts
             \<longrightarrow> track p sts ! k = tx)"
proof -
  have s: "sweepTx c n tx = Inr (tx, [])" for c n
    using assms by (simp add: sweepTx_def)
  have a: "authorizeTx tid m n tx = tx" for n
    using assms by (simp add: authorizeTx_def)
  have l: "next ! i = tx"
    if "i < length prev" "prev ! i = tx" "sweep cfg clock prev = (Inr next, fx)" for i "next" fx
  proof -
    from sweepFrom_pointwise [of cfg clock 0 prev "next" fx] that
    obtain fj where "sweepTx cfg (clock i) tx = Inr (next ! i, fj)"
      by (auto simp: sweep_def)
    with s show ?thesis by simp
  qed
  have r: "track p sts ! k = tx"
    if "appRun ops st = Inr sts" "p < length (transactions st)"
      "fromEnd p (transactions st) = tx" "k < length sts" for sts p k
  proof -
    from that(1,2) obtain tr where
      t: "txRun (view p (length (transactions st)) ops) (fromEnd p (transactions st)) = Inr tr"
      and m: "map fst tr = track p sts"
      by (rule track_view)
    from t that(3) txRun_arrived [OF assms, of "view p (length (transactions st)) ops"]
    have "tr = map (\<lambda>ev. (tx, [])) (view p (length (transactions st)) ops)"
      by simp
    then have "map fst tr = map (\<lambda>ev. tx) (view p (length (transactions st)) ops)"
      by (simp add: comp_def)
    with m have "track p sts = map (\<lambda>ev. tx) (view p (length (transactions st)) ops)"
      by simp
    moreover have "k < length (track p sts)" using that(4) by (simp add: track_def)
    ultimately show ?thesis by simp
  qed
  have "sweepTx cfg now tx = Inr (tx, [])
       \<and> authorizeTx tid m now tx = tx
       \<and> txRun evs tx = Inr (map (\<lambda>ev. (tx, [])) evs)
       \<and> (\<forall>i next fx. i < length prev \<and> prev ! i = tx \<and> sweep cfg clock prev = (Inr next, fx)
             \<longrightarrow> next ! i = tx)
       \<and> (\<forall>i. i < length prev \<and> prev ! i = tx
             \<longrightarrow> onAuthorizeTransaction tid m clock prev ! i = tx)
       \<and> (\<forall>i. i < length prev \<and> prev ! i = tx
             \<longrightarrow> fst (snd (createTransaction cfg tId tEta tSub d prev)) ! Suc i = tx)"
    using s a l txRun_arrived [OF assms]
    by (simp add: onAuthorizeTransaction_def authorizeFrom_nth createTransaction_def Let_def)
  with r show ?thesis by blast
qed

theorem funds_arrived_absorbing_witness:
  "status txArrived = FUNDS_ARRIVED
   \<and> sweepTx settingsOn 20000 txArrived = Inr (txArrived, [])
   \<and> authorizeTx ''txn_0'' Fee 20000 txArrived = txArrived
   \<and> txRun [TSweep settingsOn 18000, TAuthorize ''txn_0'' Code 19000, TSweep settingsOn 20000]
        txArrived = Inr [(txArrived, []), (txArrived, []), (txArrived, [])]"
proof -
  have s: "status txArrived = FUNDS_ARRIVED"
    by (simp add: txArrived_def)
  show ?thesis
    using funds_arrived_absorbing [OF s, of settingsOn 20000 "''txn_0''" Fee
        "[TSweep settingsOn 18000, TAuthorize ''txn_0'' Code 19000, TSweep settingsOn 20000]"]
    by (simp add: s)
qed


section \<open>The clearance threshold\<close>

text \<open>
  C5. The sweep is to move a \<open>CLEARANCE_GRANTED\<close> record to \<open>IN_TRANSIT\<close> once more than
  4 seconds have passed since its clearance. The record \<open>txGrantedLate\<close>, reached from a
  submission at 1700000000000 by a sweep and an authorization, has its clearance at
  1700000005002. The sweep at 1700000009002, when 4000 milliseconds have passed and
  not more, moves it to \<open>IN_TRANSIT\<close>: in doubles the elapsed seconds are 9.002 and
  the sum 5.002 + 4 is rounded below 9.002.
\<close>

theorem clearance_fires_at_four_seconds:
  "txRun [TSweep settingsOn 1700000004502,
          TAuthorize (txId txSubmittedLate) Code 1700000005002,
          TSweep settingsOn 1700000009002] txSubmittedLate
     = Inr [(txFlaggedLate, []), (txGrantedLate, []),
            (advance txGrantedLate IN_TRANSIT 1700000009002, [])]
   \<and> status txGrantedLate = CLEARANCE_GRANTED
   \<and> statusTimestamps txGrantedLate SUBMITTED = Some 1700000000000
   \<and> statusTimestamps txGrantedLate CLEARANCE_GRANTED = Some 1700000005002
   \<and> \<not> (1700000009002 - 1700000005002 > (4000 :: Date))
   \<and> seconds 1700000009002 1700000000000 = 5067675480698651 / 562949953421312
   \<and> roundDouble (seconds 1700000005002 1700000000000 + 4)
       = 5067675480698650 / 562949953421312
   \<and> sweepTx settingsOn 1700000009002 txGrantedLate
       = Inr (advance txGrantedLate IN_TRANSIT 1700000009002, [])
   \<and> status (advance txGrantedLate IN_TRANSIT 1700000009002) = IN_TRANSIT
   \<and> advance txGrantedLate IN_TRANSIT 1700000009002 \<noteq> txGrantedLate"
proof -
  have 1: "sweepTx settingsOn 1700000004502 txSubmittedLate = Inr (txFlaggedLate, [])"
    by (simp add: sweepTx_def Let_def seconds_gt_4 txFlaggedLate_def txSubmittedLate_def
        newTransaction_def exampleDetails_def)
  have 2: "authorizeTx (txId txSubmittedLate) Code 1700000005002 txFlaggedLate = txGrantedLate"
    by (simp add: txGrantedLate_def)
  have g: "status txGrantedLate = CLEARANCE_GRANTED"
    "statusTimestamps txGrantedLate SUBMITTED = Some 1700000000000"
    "statusTimestamps txGrantedLate CLEARANCE_GRANTED = Some 1700000005002"
    by (simp_all add: txGrantedLate_def txFlaggedLate_def txSubmittedLate_def
        authorizeTx_def newTransaction_def)
  have 3: "sweepTx settingsOn 1700000009002 txGrantedLate
             = Inr (advance txGrantedLate IN_TRANSIT 1700000009002, [])"
    using clearance_test_boundary by (simp add: sweepTx_def Let_def g)
  have 4: "advance txGrantedLate IN_TRANSIT 1700000009002 \<noteq> txGrantedLate"
    by (rule advance_changes) (simp add: g)
  have 5: "txRun [TSweep settingsOn 1700000004502,
          TAuthorize (txId txSubmittedLate) Code 1700000005002,
          TSweep settingsOn 1700000009002] txSubmittedLate
     = Inr [(txFlaggedLate, []), (txGrantedLate, []),
            (advance txGrantedLate IN_TRANSIT 1700000009002, [])]"
    by (simp add: 1 2 3)
  from 3 4 5 g show ?thesis by (simp add: boundary_doubles(1,3))
qed


section \<open>Authorization\<close>

text \<open>
  C3. \<open>onAuthorizeTransaction\<close> returns the ledger as it is when no record has the
  given id and the status \<open>FLAGGED_AWAITING_CLEARANCE\<close>; the application state is
  then the same after the operation, and no call is made. Otherwise each such record
  gets the status \<open>CLEARANCE_GRANTED\<close>, a \<open>CLEARANCE_GRANTED\<close> timestamp and
  \<open>clearanceFeePaid\<close> equal to whether the method is the fee; all its other fields
  and all other records stay as they are. The operation makes no call.
\<close>

theorem authorize_effect:
  "((\<forall>tx\<in>set prev. \<not> (txId tx = tid \<and> status tx = FLAGGED_AWAITING_CLEARANCE))
      \<longrightarrow> onAuthorizeTransaction tid m clock prev = prev)
   \<and> length (onAuthorizeTransaction tid m clock prev) = length prev
   \<and> (\<forall>i<length prev.
        onAuthorizeTransaction tid m clock prev ! i =
          (if txId (prev ! i) = tid \<and> status (prev ! i) = FLAGGED_AWAITING_CLEARANCE
           then (prev ! i)\<lparr>status := CLEARANCE_GRANTED,
                   statusTimestamps := (statusTimestamps (prev ! i))(CLEARANCE_GRANTED \<mapsto> clock i),
                   clearanceFeePaid := Some (m = Fee)\<rparr>
           else prev ! i))
   \<and> ((\<forall>tx\<in>set (transactions st). \<not> (txId tx = tid \<and> status tx = FLAGGED_AWAITING_CLEARANCE))
      \<longrightarrow> appStep (Authorize tid m clock) st = (Inr st, []))"
  by (simp add: onAuthorizeTransaction_def authorizeFrom_noop authorizeFrom_nth authorizeTx_def)

theorem authorize_effect_witness:
  "onAuthorizeTransaction ''txn_0'' Fee (\<lambda>i. 6000) [txConverting, txFlagged]
     = [txConverting,
        txFlagged\<lparr>status := CLEARANCE_GRANTED,
          statusTimestamps := (statusTimestamps txFlagged)(CLEARANCE_GRANTED \<mapsto> 6000),
          clearanceFeePaid := Some True\<rparr>]
   \<and> onAuthorizeTransaction ''txn_0'' Code (\<lambda>i. 6000) [txConverting, txFlagged] ! 1
     = txFlagged\<lparr>status := CLEARANCE_GRANTED,
          statusTimestamps := (statusTimestamps txFlagged)(CLEARANCE_GRANTED \<mapsto> 6000),
          clearanceFeePaid := Some False\<rparr>
   \<and> onAuthorizeTransaction ''txn_7'' Fee (\<lambda>i. 6000) [txConverting, txFlagged]
     = [txConverting, txFlagged]
   \<and> onAuthorizeTransaction ''txn_0'' Fee (\<lambda>i. 6000) [txConverting, txArrived]
     = [txConverting, txArrived]"
proof -
  have ids: "txId txConverting = ''txn_0''" "txId txFlagged = ''txn_0''" "txId txArrived = ''txn_0''"
    by (simp_all add: example_defs)
  have sts: "status txConverting = CONVERTING" "status txFlagged = FLAGGED_AWAITING_CLEARANCE"
    "status txArrived = FUNDS_ARRIVED"
    by (simp_all add: example_defs)
  have two: "xs = [xs ! 0, xs ! 1]" if "length xs = 2" for xs :: "unit Transaction list"
    using that by (cases xs; cases "tl xs") auto
  let ?a = "onAuthorizeTransaction ''txn_0'' Fee (\<lambda>i. 6000) [txConverting, txFlagged]"
  have "?a ! 0 = txConverting \<and> ?a ! 1 = txFlagged\<lparr>status := CLEARANCE_GRANTED,
          statusTimestamps := (statusTimestamps txFlagged)(CLEARANCE_GRANTED \<mapsto> 6000),
          clearanceFeePaid := Some True\<rparr> \<and> length ?a = 2"
    using authorize_effect [of "[txConverting, txFlagged]" "''txn_0''" Fee "\<lambda>i. 6000" stateEmpty]
    by (simp add: ids sts)
  then have 1: "?a = [txConverting, txFlagged\<lparr>status := CLEARANCE_GRANTED,
          statusTimestamps := (statusTimestamps txFlagged)(CLEARANCE_GRANTED \<mapsto> 6000),
          clearanceFeePaid := Some True\<rparr>]"
    using two [of ?a] by simp
  have 2: "onAuthorizeTransaction ''txn_0'' Code (\<lambda>i. 6000) [txConverting, txFlagged] ! 1
     = txFlagged\<lparr>status := CLEARANCE_GRANTED,
          statusTimestamps := (statusTimestamps txFlagged)(CLEARANCE_GRANTED \<mapsto> 6000),
          clearanceFeePaid := Some False\<rparr>"
    using authorize_effect [of "[txConverting, txFlagged]" "''txn_0''" Code "\<lambda>i. 6000" stateEmpty]
    by (simp add: ids sts)
  have 3: "onAuthorizeTransaction ''txn_7'' Fee (\<lambda>i. 6000) [txConverting, txFlagged]
     = [txConverting, txFlagged]"
    using authorize_effect [of "[txConverting, txFlagged]" "''txn_7''" Fee "\<lambda>i. 6000" stateEmpty]
    by (simp add: ids sts)
  have 4: "onAuthorizeTransaction ''txn_0'' Fee (\<lambda>i. 6000) [txConverting, txArrived]
     = [txConverting, txArrived]"
    using authorize_effect [of "[txConverting, txArrived]" "''txn_0''" Fee "\<lambda>i. 6000" stateEmpty]
    by (simp add: ids sts)
  from 1 2 3 4 show ?thesis by simp
qed


section \<open>Submission\<close>

text \<open>
  C8. \<open>createTransaction\<close> has a result for every input: it returns the new record,
  whose status is \<open>SUBMITTED\<close>, whose only timestamp is that of \<open>SUBMITTED\<close>, set
  to the clock value read for it, and whose other fields are the details given; the
  new ledger is that record put in front of the previous records, which are unchanged.
\<close>

theorem createTransaction_submits:
  "fst (createTransaction cfg tId tEta tSub d prev) = newTransaction tId tEta tSub d
   \<and> fst (snd (createTransaction cfg tId tEta tSub d prev)) = newTransaction tId tEta tSub d # prev
   \<and> status (newTransaction tId tEta tSub d) = SUBMITTED
   \<and> statusTimestamps (newTransaction tId tEta tSub d) = [SUBMITTED \<mapsto> tSub]
   \<and> TransactionDetails.truncate (newTransaction tId tEta tSub d) = d
   \<and> length (fst (snd (createTransaction cfg tId tEta tSub d prev))) = Suc (length prev)
   \<and> (\<forall>i<length prev. fst (snd (createTransaction cfg tId tEta tSub d prev)) ! Suc i = prev ! i)"
  by (simp add: createTransaction_def Let_def newTransaction_def TransactionDetails.truncate_def)



theorem createTransaction_submits_witness:
  "fst (createTransaction settingsOn 7 8 9 (exampleDetails None) [txArrived])
     = newTransaction 7 8 9 (exampleDetails None)
   \<and> fst (snd (createTransaction settingsOn 7 8 9 (exampleDetails None) [txArrived]))
     = [newTransaction 7 8 9 (exampleDetails None), txArrived]
   \<and> status (newTransaction 7 8 9 (exampleDetails None)) = SUBMITTED
   \<and> statusTimestamps (newTransaction 7 8 9 (exampleDetails None)) SUBMITTED = Some 9
   \<and> txId (newTransaction 7 8 9 (exampleDetails None)) = ''txn_7''"
proof -
  have "txId (newTransaction 7 8 9 (exampleDetails None)) = ''txn_7''"
    by (simp add: newTransaction_def showInt_def decimal.simps)
  then show ?thesis
    using createTransaction_submits [of settingsOn 7 8 9 "exampleDetails None" "[txArrived]"]
    by simp
qed


section \<open>Timestamps as the record of the statuses reached\<close>

text \<open>
  C7. Take any sequence of operations that starts with a submission, and follow the
  record it creates (\<open>track\<close> lists its successive values, the created record
  first). If the sequence runs without a throw, then at every point the keys of
  \<open>statusTimestamps\<close> are exactly the statuses the record has had so far, the
  current status among them; an entry, once present, keeps its value; and the record
  enters \<open>FUNDS_ARRIVED\<close> at most once. And the sequence does run without a throw
  when the records already in the ledger are well-formed.
\<close>

theorem timestamps_follow_history:
  "((\<forall>tx\<in>set (transactions st0). wellFormed tx)
      \<longrightarrow> (\<exists>sts. appRun (Submit cfg tId tEta tSub d # evs) st0 = Inr sts))
   \<and> (\<forall>sts h. appRun (Submit cfg tId tEta tSub d # evs) st0 = Inr sts
          \<and> h = track (length (transactions st0)) sts
        \<longrightarrow> length h = Suc (length evs)
          \<and> h ! 0 = newTransaction tId tEta tSub d
          \<and> (\<forall>k<length h. dom (statusTimestamps (h ! k)) = status ` set (take (Suc k) h))
          \<and> (\<forall>k<length h. status (h ! k) \<in> dom (statusTimestamps (h ! k)))
          \<and> (\<forall>j k s. j \<le> k \<and> k < length h \<and> s \<in> dom (statusTimestamps (h ! j))
                \<longrightarrow> statusTimestamps (h ! k) s = statusTimestamps (h ! j) s)
          \<and> arrivals h \<le> 1)"
proof (intro conjI impI allI)
  assume "\<forall>tx\<in>set (transactions st0). wellFormed tx"
  then show "\<exists>sts. appRun (Submit cfg tId tEta tSub d # evs) st0 = Inr sts"
    by (rule appRun_total)
next
  fix sts h
  assume a: "appRun (Submit cfg tId tEta tSub d # evs) st0 = Inr sts
               \<and> h = track (length (transactions st0)) sts"
  let ?tx = "newTransaction tId tEta tSub d"
  from appRun_submit [of cfg tId tEta tSub d evs st0 sts] a obtain tr where
    t: "txRun (view (length (transactions st0)) (Suc (length (transactions st0))) evs) ?tx = Inr tr"
    and h: "history ?tx tr = h" and l: "length sts = Suc (length evs)"
    by auto
  from txRun_timestamps [OF refl, where evs = "view (length (transactions st0))
      (Suc (length (transactions st0))) evs" and tId = tId and tEta = tEta and tSub = tSub
      and d = d]
  obtain tr' where t': "txRun (view (length (transactions st0))
      (Suc (length (transactions st0))) evs) ?tx = Inr tr'"
    and p': "(\<forall>k<length (history ?tx tr').
            dom (statusTimestamps (history ?tx tr' ! k))
              = status ` set (take (Suc k) (history ?tx tr')))
      \<and> (\<forall>k<length (history ?tx tr').
            status (history ?tx tr' ! k) \<in> dom (statusTimestamps (history ?tx tr' ! k)))
      \<and> (\<forall>j k s. j \<le> k \<and> k < length (history ?tx tr')
              \<and> s \<in> dom (statusTimestamps (history ?tx tr' ! j))
            \<longrightarrow> statusTimestamps (history ?tx tr' ! k) s
                  = statusTimestamps (history ?tx tr' ! j) s)
      \<and> arrivals (history ?tx tr') \<le> 1"
    by blast
  from t t' have "tr' = tr" by simp
  with h have hh: "history ?tx tr' = h" by simp
  note p = p' [unfolded hh]
  have "h ! 0 = ?tx" using h by (auto simp: history_def)
  moreover have "length h = Suc (length evs)" using a l by (simp add: track_def)
  ultimately show "length h = Suc (length evs)"
    "h ! 0 = newTransaction tId tEta tSub d"
    "\<And>k. k < length h \<Longrightarrow> dom (statusTimestamps (h ! k)) = status ` set (take (Suc k) h)"
    "\<And>k. k < length h \<Longrightarrow> status (h ! k) \<in> dom (statusTimestamps (h ! k))"
    "\<And>j k s. j \<le> k \<and> k < length h \<and> s \<in> dom (statusTimestamps (h ! j))
       \<Longrightarrow> statusTimestamps (h ! k) s = statusTimestamps (h ! j) s"
    "arrivals h \<le> 1"
    using p by blast+
qed


theorem timestamps_follow_history_witness:
  "dom (statusTimestamps txArrived) = {SUBMITTED, CONVERTING, IN_TRANSIT, FUNDS_ARRIVED}
   \<and> statusTimestamps txArrived CONVERTING = statusTimestamps txConverting CONVERTING
   \<and> arrivals [txSubmitted None, txConverting, txInTransit, txArrived, txArrived] \<le> 1"
proof -
  let ?evs = "[Sweep settingsOn (\<lambda>i. 5000), Sweep settingsOn (\<lambda>i. 9000),
               Sweep settingsOn (\<lambda>i. 16000), Sweep settingsOn (\<lambda>i. 18000)]"
  let ?sts = "[stateWith (txSubmitted None), stateWith txConverting, stateWith txInTransit,
            stateWith txArrived, stateWith txArrived]"
  let ?h = "[txSubmitted None, txConverting, txInTransit, txArrived, txArrived]"
  have h: "?h = track (length (transactions stateEmpty)) ?sts"
    by (simp add: example_track)
  note T = timestamps_follow_history [of stateEmpty settingsOn 0 0 0 "exampleDetails None" ?evs,
      THEN conjunct2, rule_format, of ?sts ?h, OF conjI [OF example_appRun h]]
  note a = T [THEN conjunct2, THEN conjunct2, THEN conjunct1]
  note c = T [THEN conjunct2, THEN conjunct2, THEN conjunct2, THEN conjunct2, THEN conjunct1]
  note e = T [THEN conjunct2, THEN conjunct2, THEN conjunct2, THEN conjunct2, THEN conjunct2]
  have k: "3 < length ?h" by simp
  from a [rule_format, OF k]
  have 1: "dom (statusTimestamps txArrived)
                  = {SUBMITTED, CONVERTING, IN_TRANSIT, FUNDS_ARRIVED}"
    by (simp add: example_statuses)
  have "CONVERTING \<in> dom (statusTimestamps (?h ! 1))"
    by (simp add: example_defs)
  with c [rule_format, of 1 3 CONVERTING] k
  have 2: "statusTimestamps txArrived CONVERTING = statusTimestamps txConverting CONVERTING"
    by simp
  from 1 2 e show ?thesis by simp
qed


section \<open>Clearance before transit\<close>

text \<open>
  C6. In any sequence of operations after the submission of a record with
  \<open>requiresAuth\<close> true: whenever the record is in \<open>IN_TRANSIT\<close> it was in
  \<open>CLEARANCE_GRANTED\<close> at an earlier point; whenever it is in \<open>CLEARANCE_GRANTED\<close>
  an earlier operation was an authorization with its id, made while it was in
  \<open>FLAGGED_AWAITING_CLEARANCE\<close>; and while it is in \<open>FLAGGED_AWAITING_CLEARANCE\<close>
  the sweep callback returns it unchanged whatever the time.
\<close>

theorem clearance_required:
  assumes "appRun (Submit cfg tId tEta tSub d # evs) st0 = Inr sts"
    and "requiresAuth d = Some True"
    and "h = track (length (transactions st0)) sts"
  shows "(\<forall>k<length h. status (h ! k) = IN_TRANSIT
            \<longrightarrow> (\<exists>j<k. status (h ! j) = CLEARANCE_GRANTED))
      \<and> (\<forall>k<length h. status (h ! k) = CLEARANCE_GRANTED
            \<longrightarrow> (\<exists>i<k. \<exists>m clock. evs ! i = Authorize (txId (h ! 0)) m clock
                   \<and> status (h ! i) = FLAGGED_AWAITING_CLEARANCE
                   \<and> status (h ! Suc i) = CLEARANCE_GRANTED))
      \<and> (\<forall>k<length h. status (h ! k) = FLAGGED_AWAITING_CLEARANCE
            \<longrightarrow> (\<forall>c now. sweepTx c now (h ! k) = Inr (h ! k, [])))"
proof -
  let ?tx = "newTransaction tId tEta tSub d"
  let ?tevs = "view (length (transactions st0)) (Suc (length (transactions st0))) evs"
  from appRun_submit [OF assms(1)] assms(3) obtain tr where
    t: "txRun ?tevs ?tx = Inr tr" and h: "history ?tx tr = h" and l: "length sts = Suc (length evs)"
    by auto
  have len: "length h = Suc (length evs)" using assms(3) l by (simp add: track_def)
  have h0: "h ! 0 = ?tx" using h by (auto simp: history_def)
  from txRun_clearance [OF refl assms(2), where evs = ?tevs and tId = tId and tEta = tEta
      and tSub = tSub]
  obtain tr' where t': "txRun ?tevs ?tx = Inr tr'"
    and a': "\<forall>k<length (history ?tx tr'). status (history ?tx tr' ! k) = IN_TRANSIT
            \<longrightarrow> (\<exists>j<k. status (history ?tx tr' ! j) = CLEARANCE_GRANTED)"
    and b': "\<forall>k<length (history ?tx tr'). status (history ?tx tr' ! k) = CLEARANCE_GRANTED
            \<longrightarrow> (\<exists>i<k. \<exists>m now. ?tevs ! i = TAuthorize (txId ?tx) m now
                   \<and> status (history ?tx tr' ! i) = FLAGGED_AWAITING_CLEARANCE
                   \<and> status (history ?tx tr' ! Suc i) = CLEARANCE_GRANTED)"
    and c': "\<forall>k<length (history ?tx tr').
              status (history ?tx tr' ! k) = FLAGGED_AWAITING_CLEARANCE
            \<longrightarrow> (\<forall>c now. sweepTx c now (history ?tx tr' ! k) = Inr (history ?tx tr' ! k, []))"
    by blast
  from t t' have "tr' = tr" by simp
  with h have hh: "history ?tx tr' = h" by simp
  note a = a' [unfolded hh] and b = b' [unfolded hh] and c = c' [unfolded hh]
  have b2: "\<exists>i<k. \<exists>m clock. evs ! i = Authorize (txId (h ! 0)) m clock
                   \<and> status (h ! i) = FLAGGED_AWAITING_CLEARANCE
                   \<and> status (h ! Suc i) = CLEARANCE_GRANTED"
    if k: "k < length h" and g: "status (h ! k) = CLEARANCE_GRANTED" for k
  proof -
    from b k g obtain i m now where i: "i < k" "?tevs ! i = TAuthorize (txId ?tx) m now"
      "status (h ! i) = FLAGGED_AWAITING_CLEARANCE" "status (h ! Suc i) = CLEARANCE_GRANTED"
      by blast
    from i(1) k len have "i < length evs" by simp
    from view_nth [OF this, THEN conjunct1, rule_format, OF i(2)]
    obtain clock where "evs ! i = Authorize (txId ?tx) m clock" by blast
    with i h0 show ?thesis by auto
  qed
  from a b2 c show ?thesis by blast
qed

theorem clearance_required_witness:
  "requiresAuth (exampleDetails (Some True)) = Some True
   \<and> sweepTx settingsOn 100000 txFlagged = Inr (txFlagged, [])
   \<and> status (advance txGranted IN_TRANSIT 11000) = IN_TRANSIT
   \<and> status txGranted = CLEARANCE_GRANTED"
proof -
  let ?evs = "[Sweep settingsOn (\<lambda>i. 5000), Sweep settingsOn (\<lambda>i. 5900),
               Authorize ''txn_0'' Code (\<lambda>i. 6000), Sweep settingsOn (\<lambda>i. 11000)]"
  let ?sts = "[stateWith (txSubmitted (Some True)), stateWith txFlagged, stateWith txFlagged,
            stateWith txGranted, stateWith (advance txGranted IN_TRANSIT 11000)]"
  let ?h = "[txSubmitted (Some True), txFlagged, txFlagged, txGranted,
             advance txGranted IN_TRANSIT 11000]"
  have q: "requiresAuth (exampleDetails (Some True)) = Some True"
    by (simp add: exampleDetails_def)
  have h: "?h = track (length (transactions stateEmpty)) ?sts"
    by (simp add: example_track)
  note c = clearance_required [OF example_appRun_cleared q h, THEN conjunct2, THEN conjunct2]
  have k: "1 < length ?h" by simp
  from c [rule_format, OF k] have "sweepTx settingsOn 100000 txFlagged = Inr (txFlagged, [])"
    by (simp add: example_statuses)
  with q show ?thesis by (simp add: example_statuses)
qed


section \<open>One edge per sweep\<close>

text \<open>
  C10. One call of the sweep callback returns the record as it is or moves it along
  one edge of the diagram. A \<open>SUBMITTED\<close> record whose elapsed time exceeds 15
  seconds moves to \<open>CONVERTING\<close> (or \<open>FLAGGED_AWAITING_CLEARANCE\<close>) only. And when
  a sequence of operations takes a \<open>SUBMITTED\<close> record of the ledger to
  \<open>FUNDS_ARRIVED\<close>, at least three of the operations up to that point are sweeps.
\<close>

theorem one_edge_per_sweep:
  "(sweepTx cfg now tx = Inr (tx', fx)
      \<longrightarrow> tx' = tx \<or> (tx' = advance tx (status tx') now \<and> sweepEdge (status tx) (status tx')))
   \<and> (status tx = SUBMITTED \<and> statusTimestamps tx SUBMITTED = Some s \<and> seconds now s > 15
      \<longrightarrow> sweepTx cfg now tx =
            Inr (advance tx (if requiresAuth tx = Some True
                             then FLAGGED_AWAITING_CLEARANCE else CONVERTING) now, []))
   \<and> (appRun evs st = Inr sts \<and> p < length (transactions st)
        \<and> status (fromEnd p (transactions st)) = SUBMITTED
        \<and> k < length sts \<and> status (track p sts ! k) = FUNDS_ARRIVED
      \<longrightarrow> 3 \<le> length (filter isSweepEvent (take (Suc k) evs)))"
proof -
  have a: "tx' = tx \<or> (tx' = advance tx (status tx') now \<and> sweepEdge (status tx) (status tx'))"
    if "sweepTx cfg now tx = Inr (tx', fx)"
    using sweepTx_edge [OF that] by blast
  have b: "sweepTx cfg now tx =
            Inr (advance tx (if requiresAuth tx = Some True
                             then FLAGGED_AWAITING_CLEARANCE else CONVERTING) now, [])"
    if "status tx = SUBMITTED" "statusTimestamps tx SUBMITTED = Some s" "seconds now s > 15"
    using that by (simp add: sweepTx_def)
  have c: "3 \<le> length (filter isSweepEvent (take (Suc k) evs))"
    if r: "appRun evs st = Inr sts" and p: "p < length (transactions st)"
      and s: "status (fromEnd p (transactions st)) = SUBMITTED"
      and k: "k < length sts" and f: "status (track p sts ! k) = FUNDS_ARRIVED"
  proof -
    from r p obtain tr where
      t: "txRun (view p (length (transactions st)) evs) (fromEnd p (transactions st)) = Inr tr"
      and h: "history (fromEnd p (transactions st)) tr = fromEnd p (transactions st) # track p sts"
      by (rule track_view)
    have "Suc k < length (history (fromEnd p (transactions st)) tr)"
      using k by (simp add: h track_def)
    from txRun_left [OF t this] s f show ?thesis
      by (simp add: h sweeps_view)
  qed
  from a b c show ?thesis by blast
qed

theorem one_edge_per_sweep_witness:
  "sweepTx settingsOn 16000 (txSubmitted None)
     = Inr (advance (txSubmitted None) CONVERTING 16000, [])
   \<and> sweepTx settingsOn 16000 (txSubmitted (Some True))
     = Inr (advance (txSubmitted (Some True)) FLAGGED_AWAITING_CLEARANCE 16000, [])
   \<and> 3 \<le> length (filter isSweepEvent (take 3
          [Sweep settingsOn (\<lambda>i. 5000), Sweep settingsOn (\<lambda>i. 9000),
           Sweep settingsOn (\<lambda>i. 16000), Sweep settingsOn (\<lambda>i. 18000) :: unit event]))"
proof -
  let ?evs = "[Sweep settingsOn (\<lambda>i. 5000), Sweep settingsOn (\<lambda>i. 9000),
           Sweep settingsOn (\<lambda>i. 16000), Sweep settingsOn (\<lambda>i. 18000) :: unit event]"
  let ?sts = "[stateWith txConverting, stateWith txInTransit, stateWith txArrived,
            stateWith txArrived]"
  have s: "statusTimestamps (txSubmitted a) SUBMITTED = Some 0"
    "requiresAuth (txSubmitted a) = a" for a
    by (simp_all add: example_defs)
  have t: "seconds 16000 0 > 15" by (simp add: seconds_gt_15)
  note T = one_edge_per_sweep [where st = "stateWith (txSubmitted None)" and evs = ?evs
      and sts = ?sts and p = 0 and k = 2 and now = 16000 and s = 0 and cfg = settingsOn]
  have 1: "sweepTx settingsOn 16000 (txSubmitted None)
     = Inr (advance (txSubmitted None) CONVERTING 16000, [])"
    using T [where tx = "txSubmitted None", THEN conjunct2, THEN conjunct1]
    by (simp add: example_statuses s t)
  have 2: "sweepTx settingsOn 16000 (txSubmitted (Some True))
     = Inr (advance (txSubmitted (Some True)) FLAGGED_AWAITING_CLEARANCE 16000, [])"
    using T [where tx = "txSubmitted (Some True)", THEN conjunct2, THEN conjunct1]
    by (simp add: example_statuses s t)
  have "track 0 ?sts ! 2 = txArrived" "fromEnd 0 (transactions (stateWith (txSubmitted None)))
      = txSubmitted None"
    by (simp_all add: track_def fromEnd_def)
  then have 3: "3 \<le> length (filter isSweepEvent (take (Suc 2) ?evs))"
    using T [where tx = "txSubmitted None", THEN conjunct2, THEN conjunct2] example_appRun_sweeps
    by (simp only: example_statuses) simp
  from 1 2 3 show ?thesis by (simp add: numeral_3_eq_3)
qed


section \<open>The calls made on arrival\<close>

text \<open>
  C4 (amended). When the sweep moves a record from \<open>IN_TRANSIT\<close> to
  \<open>FUNDS_ARRIVED\<close> it adds the "Funds Arrived" notification if the push setting for
  transactions is on, and sends the funds-arrived e-mail if the e-mail setting for
  transactions is on. A call of either callback that makes any call at all is such
  a move, and makes arrival calls only; a submission makes no arrival call. In a
  sequence of operations a record enters \<open>FUNDS_ARRIVED\<close> at most once, and the
  calls the callbacks make for it are none, when it does not arrive, or those of the
  single sweep that moved it to \<open>FUNDS_ARRIVED\<close>.
\<close>

theorem arrival_effects:
  "(status tx = IN_TRANSIT \<and> statusTimestamps tx SUBMITTED = Some s \<and> seconds now s > 15
      \<longrightarrow> sweepTx cfg now tx =
            Inr (advance tx FUNDS_ARRIVED now,
                 (if pushTransactions cfg
                  then [AddNotification TRANSACTION ''Funds Arrived''
                          (FundsArrivedMsg (fullName (recipient tx)))]
                  else []) @
                 (if emailTransactions cfg
                  then [SendTransactionalEmail (userEmail cfg) (FundsArrivedEmail tx (userName cfg))]
                  else [])))
   \<and> (txStep ev tx = Inr (tx', fx) \<and> fx \<noteq> []
      \<longrightarrow> status tx = IN_TRANSIT \<and> status tx' = FUNDS_ARRIVED \<and> (\<forall>e\<in>set fx. isArrival e))
   \<and> (\<forall>e\<in>set (snd (snd (createTransaction cfg tId tEta tSub d prev))). \<not> isArrival e)
   \<and> (appRun evs st = Inr sts \<and> p < length (transactions st)
        \<and> h = fromEnd p (transactions st) # track p sts
      \<longrightarrow> arrivals h \<le> 1
        \<and> (\<exists>tr. txRun (view p (length (transactions st)) evs) (h ! 0) = Inr tr
              \<and> map fst tr = track p sts
              \<and> ((concat (map snd tr) = [] \<and> arrivals h = 0)
                 \<or> (\<exists>i<length evs. \<exists>c clock. evs ! i = Sweep c clock
                      \<and> status (h ! i) = IN_TRANSIT
                      \<and> status (h ! Suc i) = FUNDS_ARRIVED
                      \<and> concat (map snd tr) = arrivalEffects c (h ! i)))))"
proof -
  have a: "sweepTx cfg now tx = Inr (advance tx FUNDS_ARRIVED now, arrivalEffects cfg tx)"
    if "status tx = IN_TRANSIT" "statusTimestamps tx SUBMITTED = Some s" "seconds now s > 15"
    using that by (simp add: sweepTx_def)
  have b: "status tx = IN_TRANSIT \<and> status tx' = FUNDS_ARRIVED \<and> (\<forall>e\<in>set fx. isArrival e)"
    if "txStep ev tx = Inr (tx', fx)" "fx \<noteq> []"
    using txStep_effects [OF that(1)] that(2) arrivalEffects_isArrival by auto
  have c: "\<forall>e\<in>set (snd (snd (createTransaction cfg tId tEta tSub d prev))). \<not> isArrival e"
    by (auto simp: createTransaction_def Let_def)
  have d: "arrivals h \<le> 1
        \<and> (\<exists>tr. txRun (view p (length (transactions st)) evs) (h ! 0) = Inr tr
              \<and> map fst tr = track p sts
              \<and> ((concat (map snd tr) = [] \<and> arrivals h = 0)
                 \<or> (\<exists>i<length evs. \<exists>c clock. evs ! i = Sweep c clock
                      \<and> status (h ! i) = IN_TRANSIT
                      \<and> status (h ! Suc i) = FUNDS_ARRIVED
                      \<and> concat (map snd tr) = arrivalEffects c (h ! i))))"
    if r: "appRun evs st = Inr sts" and p: "p < length (transactions st)"
      and h: "h = fromEnd p (transactions st) # track p sts"
  proof -
    let ?tevs = "view p (length (transactions st)) evs"
    from r p obtain tr where
      t: "txRun ?tevs (fromEnd p (transactions st)) = Inr tr"
      and m: "map fst tr = track p sts"
      and hh: "history (fromEnd p (transactions st)) tr = h"
      unfolding h by (rule track_view)
    have h0: "h ! 0 = fromEnd p (transactions st)" by (simp add: h)
    have 1: "arrivals h \<le> 1"
      using arrivals_bound [OF t] by (simp add: hh split: if_splits)
    have 2: "(concat (map snd tr) = [] \<and> arrivals h = 0)
                 \<or> (\<exists>i<length evs. \<exists>c clock. evs ! i = Sweep c clock
                      \<and> status (h ! i) = IN_TRANSIT
                      \<and> status (h ! Suc i) = FUNDS_ARRIVED
                      \<and> concat (map snd tr) = arrivalEffects c (h ! i))"
      using txRun_effects [OF t, unfolded hh]
    proof (elim disjE exE conjE)
      assume "concat (map snd tr) = []" "arrivals h = 0"
      then show ?thesis by simp
    next
      fix i c now
      assume i: "i < length ?tevs" "?tevs ! i = TSweep c now"
        "status (h ! i) = IN_TRANSIT" "status (h ! Suc i) = FUNDS_ARRIVED"
        "concat (map snd tr) = arrivalEffects c (h ! i)"
      have l: "i < length evs" using i(1) by simp
      from view_nth [OF l, THEN conjunct2, rule_format, OF i(2)]
      obtain clock where "evs ! i = Sweep c clock" by blast
      with i l show ?thesis by blast
    qed
    from 1 2 t m h0 show ?thesis by auto
  qed
  from a b c d show ?thesis
    unfolding arrivalEffects_def by blast
qed

theorem arrival_effects_witness:
  "sweepTx settingsOn 16000 txInTransit
     = Inr (txArrived,
            [AddNotification TRANSACTION ''Funds Arrived'' (FundsArrivedMsg ''Ada''),
             SendTransactionalEmail ''randy@example.com'' (FundsArrivedEmail txInTransit ''Randy'')])
   \<and> sweepTx settingsOn 15000 txInTransit = Inr (txInTransit, [])
   \<and> arrivals [txSubmitted None, txConverting, txInTransit, txArrived, txArrived] = 1"
proof -
  have s: "status txInTransit = IN_TRANSIT" "statusTimestamps txInTransit SUBMITTED = Some 0"
    "fullName (recipient txInTransit) = ''Ada''"
    by (simp_all add: example_defs exampleRecipient_def)
  have t: "seconds 16000 0 > 15" by (simp add: seconds_gt_15)
  have c: "pushTransactions settingsOn" "emailTransactions settingsOn"
    "userEmail settingsOn = ''randy@example.com''" "userName settingsOn = ''Randy''"
    by (simp_all add: settingsOn_def)
  have q: "sweepTx settingsOn 15000 txInTransit = Inr (txInTransit, [])"
    by (simp add: sweepTx_def Let_def seconds_gt_4 seconds_gt_8 seconds_gt_15 s)
  have a: "arrivals [txSubmitted None, txConverting, txInTransit, txArrived, txArrived] = 1"
    by (simp add: example_statuses)
  have m: "sweepTx settingsOn 16000 txInTransit
     = Inr (txArrived,
            [AddNotification TRANSACTION ''Funds Arrived'' (FundsArrivedMsg ''Ada''),
             SendTransactionalEmail ''randy@example.com'' (FundsArrivedEmail txInTransit ''Randy'')])"
    using arrival_effects [where tx = txInTransit and s = 0 and now = 16000
        and cfg = settingsOn, THEN conjunct1]
    by (simp add: s t c txArrived_def)
  from m q a show ?thesis by (intro conjI)
qed

text \<open>
  C4 as stated fails: with the push and e-mail settings for transactions off, the
  sweep moves the record from \<open>IN_TRANSIT\<close> to \<open>FUNDS_ARRIVED\<close> and makes no call.
\<close>

theorem arrival_silent_counterexample:
  "status txInTransit = IN_TRANSIT
   \<and> sweepTx settingsOff 16000 txInTransit = Inr (txArrived, [])
   \<and> status txArrived = FUNDS_ARRIVED"
  by (simp add: sweepTx_def Let_def seconds_gt_4 seconds_gt_8 seconds_gt_15
      arrivalEffects_def example_defs)

section \<open>The recipient snapshot\<close>

text \<open>
  C9. \<open>onUpdateRecipient\<close> leaves the ledger as it is, so the recipient embedded in
  every transaction keeps all its fields; the embedded recipient is the one given in
  the details at submission; and through any sequence of submissions, sweeps,
  authorizations and recipient updates the embedded recipient of a record stays the
  same.
\<close>

theorem recipient_snapshot:
  "transactions (fst (onUpdateRecipient rid data st)) = transactions st
   \<and> recipient (newTransaction tId tEta tSub d) = recipient d
   \<and> (appRun evs st = Inr sts \<and> p < length (transactions st) \<and> k < length sts
        \<longrightarrow> recipient (track p sts ! k) = recipient (fromEnd p (transactions st)))"
proof -
  have a: "transactions (fst (onUpdateRecipient rid data st)) = transactions st"
    by (simp add: onUpdateRecipient_def)
  have b: "recipient (newTransaction tId tEta tSub d) = recipient d"
    by (simp add: newTransaction_def)
  have c: "recipient (track p sts ! k) = recipient (fromEnd p (transactions st))"
    if r: "appRun evs st = Inr sts" and p: "p < length (transactions st)"
      and k: "k < length sts"
  proof -
    from r p obtain tr where
      t: "txRun (view p (length (transactions st)) evs) (fromEnd p (transactions st)) = Inr tr"
      and h: "history (fromEnd p (transactions st)) tr = fromEnd p (transactions st) # track p sts"
      by (rule track_view)
    have "Suc k < length (history (fromEnd p (transactions st)) tr)"
      using k by (simp add: h track_def)
    from txRun_frame(1) [OF t this] show ?thesis by (simp add: h)
  qed
  from a b c show ?thesis by blast
qed

theorem recipient_snapshot_witness:
  "map fullName (recipients (fst (onUpdateRecipient ''rec_1'' exampleData
       (stateWith (txSubmitted None))))) = [''Grace'']
   \<and> map (\<lambda>tx. fullName (recipient tx))
        (transactions (fst (onUpdateRecipient ''rec_1'' exampleData
           (stateWith (txSubmitted None))))) = [''Ada'']
   \<and> accountNumber (updateRecipient exampleData exampleRecipient) = bullet @ bullet @ bullet @ bullet @ units '' 987''"
proof -
  have 1: "map fullName (recipients (fst (onUpdateRecipient ''rec_1'' exampleData
       (stateWith (txSubmitted None))))) = [''Grace'']"
    by (simp add: onUpdateRecipient_def stateWith_def exampleRecipient_def updateRecipient_def
        exampleData_def)
  have 2: "fullName (recipient (txSubmitted None)) = ''Ada''"
    by (simp add: example_defs exampleRecipient_def)
  have 3: "accountNumber (updateRecipient exampleData exampleRecipient)
             = bullet @ bullet @ bullet @ bullet @ units '' 987''"
    by (simp add: updateRecipient_def exampleData_def maskAccount_def sliceLast4_def units_def)
  show ?thesis
    using recipient_snapshot [where rid = "''rec_1''" and data = exampleData
        and st = "stateWith (txSubmitted None)", THEN conjunct1]
    by (simp add: 1 2 3)
qed


end
